theory Spec2Isabelle
  imports Main
begin

section \<open>The exception mechanism of except.c: data model\<close>

text \<open>
  The two registries of \<^verbatim>\<open>except.c\<close> are the static arrays \<^verbatim>\<open>envList\<close> and
  \<^verbatim>\<open>exceptionList\<close>. After \<^verbatim>\<open>exInit\<close> entry \<open>i\<close> is linked to entry \<open>i + 1\<close> and the
  last entry to \<^verbatim>\<open>NULL\<close>, so every \<^verbatim>\<open>for (entry = list; entry; entry = entry->next)\<close>
  visits the array in index order. A pool is modelled as the list of its entries, a
  pointer into a pool as the index of the entry (\<open>None\<close> for \<^verbatim>\<open>NULL\<close>), and a
  pointer that addresses no entry of the pool as an index beyond the list.

  Every API function holds the global mutex while it reads or writes the flags, and the
  payload it writes after unlocking belongs to a record whose handle only the caller
  has; one call is therefore one atomic step of the model, performed by the thread
  given as an argument (\<^verbatim>\<open>pthread_self()\<close>).
\<close>

type_synonym pthread_t = nat

datatype ExceptionCode = exOther

definition MAX_MSG_LEN :: nat where
  "MAX_MSG_LEN = 2048"

definition ENV_LIST_SIZE :: nat where
  "ENV_LIST_SIZE = 16"

definition EXCEPTION_LIST_SIZE :: nat where
  "EXCEPTION_LIST_SIZE = 16"

definition NUL :: char where
  "NUL = CHR 0x00"

text \<open>
  \<^verbatim>\<open>struct _Exception\<close>: the classification code, the message buffer
  \<^verbatim>\<open>char msg[MAX_MSG_LEN]\<close> (all its bytes, terminator included) and the cause pointer.
\<close>

record Exception =
  code :: ExceptionCode
  msg :: "char list"
  cause :: "nat option"

text \<open>
  \<^verbatim>\<open>struct _EnvEntry\<close>. The saved context \<^verbatim>\<open>jmp_buf env\<close> is opaque; a pointer to it
  is the index of its slot. The fields \<^verbatim>\<open>used\<close>, \<^verbatim>\<open>level\<close>, \<^verbatim>\<open>thread\<close> carry the prefix
  \<open>env_\<close> because the exception entry has fields of the same names. The level is a
  counter that starts at 0 and is bounded by the pool size, so it is a natural number.
\<close>

record EnvEntry =
  env_used :: bool
  env_level :: nat
  env_thread :: pthread_t

text \<open>
  \<^verbatim>\<open>struct _ExceptionEntry\<close>: the record and the three one-bit flags \<^verbatim>\<open>used\<close>,
  \<^verbatim>\<open>thrown\<close>, \<^verbatim>\<open>cause\<close>, and the owning thread.
\<close>

record ExceptionEntry =
  exception :: Exception
  ex_used :: bool
  ex_thrown :: bool
  ex_cause :: bool
  ex_thread :: pthread_t

text \<open>
  The state: both pools, and the callers' variables of type \<^verbatim>\<open>Exception *\<close> by
  address (the only caller memory the mechanism writes: the out-parameter of
  \<^verbatim>\<open>popCallingEnv\<close>).
\<close>

record registry =
  envList :: "EnvEntry list"
  exceptionList :: "ExceptionEntry list"
  ptrs :: "nat \<Rightarrow> nat option"

text \<open>
  A call that does not return: a failed \<^verbatim>\<open>assert\<close> (the build without
  \<^verbatim>\<open>NDEBUG\<close>), or a write or jump through \<^verbatim>\<open>NULL\<close>. The error carries the state at
  the moment the call stopped.
\<close>

datatype error = AssertionFailed | NullDereference

type_synonym 'a result = "(error \<times> registry) + 'a"

definition zeroEnvEntry :: EnvEntry where
  "zeroEnvEntry = \<lparr>env_used = False, env_level = 0, env_thread = 0\<rparr>"

definition zeroException :: Exception where
  "zeroException = \<lparr>code = exOther, msg = replicate MAX_MSG_LEN NUL, cause = None\<rparr>"

definition zeroExceptionEntry :: ExceptionEntry where
  "zeroExceptionEntry =
     \<lparr>exception = zeroException, ex_used = False, ex_thrown = False, ex_cause = False,
      ex_thread = 0\<rparr>"

text \<open>
  The state once \<^verbatim>\<open>exInit\<close> has run (the header asks for it before any other call): the
  static arrays are zero-initialised and \<^verbatim>\<open>exInit\<close> only links their entries. The
  callers' variables are as given.
\<close>

definition exInit :: "(nat \<Rightarrow> nat option) \<Rightarrow> registry" where
  "exInit vars =
     \<lparr>envList = replicate ENV_LIST_SIZE zeroEnvEntry,
      exceptionList = replicate EXCEPTION_LIST_SIZE zeroExceptionEntry,
      ptrs = vars\<rparr>"

section \<open>The environment registry\<close>

text \<open>
  \<^verbatim>\<open>getLastEnvEntry\<close>: the loop runs \<open>i\<close> from the last index down to 0 and keeps the
  used entry of the thread with the greatest level, the first one found on a tie.
  The counter of the model is \<open>i + 1\<close>.
\<close>

fun getLastEnvEntry_loop :: "EnvEntry list \<Rightarrow> pthread_t \<Rightarrow> nat \<Rightarrow> nat option \<Rightarrow> nat option" where
  "getLastEnvEntry_loop es t 0 lst = lst"
| "getLastEnvEntry_loop es t (Suc i) lst =
     getLastEnvEntry_loop es t i
       (if env_used (es ! i) \<and> env_thread (es ! i) = t
        then (case lst of
                None \<Rightarrow> Some i
              | Some l \<Rightarrow> if env_level (es ! i) > env_level (es ! l) then Some i else Some l)
        else lst)"

definition getLastEnvEntry :: "EnvEntry list \<Rightarrow> pthread_t \<Rightarrow> nat option" where
  "getLastEnvEntry es t = getLastEnvEntry_loop es t (length es) None"

text \<open>
  The scan of \<^verbatim>\<open>pushCallingEnv\<close>: \<open>i\<close> is the index of the entry visited, the pair is
  (\<^verbatim>\<open>unused\<close>, \<^verbatim>\<open>level\<close>).
\<close>

fun pushCallingEnv_scan ::
  "EnvEntry list \<Rightarrow> pthread_t \<Rightarrow> nat \<Rightarrow> nat option \<times> nat \<Rightarrow> nat option \<times> nat" where
  "pushCallingEnv_scan [] t i acc = acc"
| "pushCallingEnv_scan (entry # rest) t i (unused, lvl) =
     pushCallingEnv_scan rest t (Suc i)
       (if unused = None \<and> \<not> env_used entry then (Some i, lvl)
        else if env_used entry \<and> env_thread entry = t then (unused, Suc lvl)
        else (unused, lvl))"

text \<open>
  \<^verbatim>\<open>pushCallingEnv\<close> returns the slot whose \<^verbatim>\<open>jmp_buf\<close> the \<^verbatim>\<open>try\<close> macro fills. With
  no free slot \<^verbatim>\<open>unused\<close> is \<^verbatim>\<open>NULL\<close> and the first write through it stops the program.
\<close>

definition pushCallingEnv :: "registry \<Rightarrow> pthread_t \<Rightarrow> (nat \<times> registry) result" where
  "pushCallingEnv s t =
     (case pushCallingEnv_scan (envList s) t 0 (None, 0) of
        (None, lvl) \<Rightarrow> Inl (NullDereference, s)
      | (Some u, lvl) \<Rightarrow>
          Inr (u, s\<lparr>envList := (envList s)
                 [u := (envList s ! u)\<lparr>env_used := True, env_level := lvl, env_thread := t\<rparr>]\<rparr>))"

section \<open>The exception registry\<close>

text \<open>
  \<^verbatim>\<open>getExceptionEntry\<close> walks the pool for the entry whose record has the address
  given: the entry of that index if the pool has one, \<^verbatim>\<open>NULL\<close> otherwise.
\<close>

fun getExceptionEntry_scan :: "ExceptionEntry list \<Rightarrow> nat \<Rightarrow> nat \<Rightarrow> nat option" where
  "getExceptionEntry_scan [] i e = None"
| "getExceptionEntry_scan (entry # rest) i e =
     (if i = e then Some i else getExceptionEntry_scan rest (Suc i) e)"

definition getExceptionEntry :: "ExceptionEntry list \<Rightarrow> nat option \<Rightarrow> nat option" where
  "getExceptionEntry xs e =
     (case e of None \<Rightarrow> None | Some h \<Rightarrow> getExceptionEntry_scan xs 0 h)"

text \<open>The scan of \<^verbatim>\<open>allocExceptionEntry\<close>: the first entry that is not in use.\<close>

fun allocExceptionEntry_scan :: "ExceptionEntry list \<Rightarrow> nat \<Rightarrow> nat option" where
  "allocExceptionEntry_scan [] i = None"
| "allocExceptionEntry_scan (entry # rest) i =
     (if \<not> ex_used entry then Some i else allocExceptionEntry_scan rest (Suc i))"

definition allocExceptionEntry :: "ExceptionEntry list \<Rightarrow> nat option \<times> ExceptionEntry list" where
  "allocExceptionEntry xs =
     (case allocExceptionEntry_scan xs 0 of
        None \<Rightarrow> (None, xs)
      | Some i \<Rightarrow> (Some i, xs[i := (xs ! i)\<lparr>ex_cause := False, ex_used := True\<rparr>]))"

text \<open>
  The scan of \<^verbatim>\<open>popCallingEnv\<close> over the exception pool: the first entry that is used,
  thrown and owned by the thread.
\<close>

fun popCallingEnv_scan :: "ExceptionEntry list \<Rightarrow> pthread_t \<Rightarrow> nat \<Rightarrow> nat option" where
  "popCallingEnv_scan [] t i = None"
| "popCallingEnv_scan (entry # rest) t i =
     (if ex_used entry \<and> ex_thrown entry \<and> ex_thread entry = t then Some i
      else popCallingEnv_scan rest t (Suc i))"

text \<open>
  \<^verbatim>\<open>popCallingEnv(Exception **e)\<close>: \<open>e\<close> is \<open>None\<close> for \<^verbatim>\<open>NULL\<close>, or the address of the
  caller's variable. The release writes through the result of \<^verbatim>\<open>getLastEnvEntry\<close>
  unchecked; the delivery writes through \<open>e\<close> unchecked, after the flag is cleared.
\<close>

definition popCallingEnv :: "registry \<Rightarrow> pthread_t \<Rightarrow> nat option \<Rightarrow> registry result" where
  "popCallingEnv s t e =
     (case getLastEnvEntry (envList s) t of
        None \<Rightarrow> Inl (NullDereference, s)
      | Some l \<Rightarrow>
          let s1 = s\<lparr>envList := (envList s)[l := (envList s ! l)\<lparr>env_used := False\<rparr>]\<rparr> in
          (case popCallingEnv_scan (exceptionList s1) t 0 of
             None \<Rightarrow> Inr s1
           | Some i \<Rightarrow>
               let s2 = s1\<lparr>exceptionList := (exceptionList s1)
                              [i := (exceptionList s1 ! i)\<lparr>ex_thrown := False\<rparr>]\<rparr> in
               (case e of
                  None \<Rightarrow> Inl (NullDereference, s2)
                | Some v \<Rightarrow> Inr (s2\<lparr>ptrs := (ptrs s2)(v := Some i)\<rparr>))))"

text \<open>
  \<^verbatim>\<open>vsnprintf(buf, n, template, args)\<close> of the C library, as ISO C states it: of the
  formatted output \<open>out\<close> the first \<open>n - 1\<close> characters are stored, then a null
  character; nothing is stored when \<open>n\<close> is 0. The template and its arguments are
  represented by \<open>out\<close>, the characters they expand to. The characters stored overwrite
  the buffer from its start; the result is longer than \<open>buf\<close> exactly when a
  character is stored beyond its end.
\<close>

definition vsnprintf_stored :: "nat \<Rightarrow> char list \<Rightarrow> char list" where
  "vsnprintf_stored n out = (if n = 0 then [] else take (n - 1) out @ [NUL])"

definition vsnprintf :: "char list \<Rightarrow> nat \<Rightarrow> char list \<Rightarrow> char list" where
  "vsnprintf buf n out = vsnprintf_stored n out @ drop (length (vsnprintf_stored n out)) buf"

text \<open>The three assertions on a cause that \<^verbatim>\<open>exAlloc\<close> and \<^verbatim>\<open>exThrow\<close> share.\<close>

definition check_cause :: "ExceptionEntry list \<Rightarrow> nat option \<Rightarrow> error option" where
  "check_cause xs c =
     (if c = None then None
      else (case getExceptionEntry xs c of
              None \<Rightarrow> Some NullDereference
            | Some r \<Rightarrow>
                if \<not> ex_used (xs ! r) then Some AssertionFailed
                else if ex_cause (xs ! r) then Some AssertionFailed
                else if ex_thrown (xs ! r) then Some AssertionFailed
                else None))"

text \<open>\<^verbatim>\<open>if (cause) getExceptionEntry(cause)->cause = 1;\<close>\<close>

definition mark_cause :: "ExceptionEntry list \<Rightarrow> nat option \<Rightarrow> ExceptionEntry list" where
  "mark_cause xs c =
     (case getExceptionEntry xs c of
        None \<Rightarrow> xs
      | Some r \<Rightarrow> xs[r := (xs ! r)\<lparr>ex_cause := True\<rparr>])"

text \<open>The writes to the record after the lock is released: code, cause, message.\<close>

definition fill_exception ::
  "ExceptionEntry list \<Rightarrow> nat \<Rightarrow> ExceptionCode \<Rightarrow> nat option \<Rightarrow> char list \<Rightarrow> ExceptionEntry list" where
  "fill_exception xs i c cs out =
     xs[i := (xs ! i)\<lparr>exception :=
          \<lparr>code = c, msg = vsnprintf (msg (exception (xs ! i))) MAX_MSG_LEN out, cause = cs\<rparr>\<rparr>]"

text \<open>
  \<^verbatim>\<open>exAlloc(code, cause, msg, ...)\<close> returns the handle of the new record. With the
  pool exhausted \<^verbatim>\<open>entry\<close> is \<^verbatim>\<open>NULL\<close>; the cause is marked all the same, and the write
  of the code stops the program.
\<close>

definition exAlloc ::
  "registry \<Rightarrow> ExceptionCode \<Rightarrow> nat option \<Rightarrow> char list \<Rightarrow> (nat \<times> registry) result" where
  "exAlloc s c cs out =
     (case check_cause (exceptionList s) cs of
        Some err \<Rightarrow> Inl (err, s)
      | None \<Rightarrow>
          (case allocExceptionEntry (exceptionList s) of
             (None, xs) \<Rightarrow> Inl (NullDereference, s\<lparr>exceptionList := mark_cause xs cs\<rparr>)
           | (Some i, xs) \<Rightarrow>
               Inr (i, s\<lparr>exceptionList := fill_exception (mark_cause xs cs) i c cs out\<rparr>)))"

text \<open>
  \<^verbatim>\<open>exThrow\<close> returns the slot it jumps to. With the pool exhausted the write of
  \<^verbatim>\<open>thrown\<close> stops the program; with no open block of the thread the jump through
  \<^verbatim>\<open>NULL\<close> does, after the record is written.
\<close>

definition exThrow ::
  "registry \<Rightarrow> pthread_t \<Rightarrow> ExceptionCode \<Rightarrow> nat option \<Rightarrow> char list \<Rightarrow> (nat \<times> registry) result" where
  "exThrow s t c cs out =
     (case check_cause (exceptionList s) cs of
        Some err \<Rightarrow> Inl (err, s)
      | None \<Rightarrow>
          (case allocExceptionEntry (exceptionList s) of
             (None, xs) \<Rightarrow> Inl (NullDereference, s\<lparr>exceptionList := xs\<rparr>)
           | (Some i, xs) \<Rightarrow>
               let xs1 = xs[i := (xs ! i)\<lparr>ex_thrown := True, ex_thread := t\<rparr>];
                   s' = s\<lparr>exceptionList := fill_exception (mark_cause xs1 cs) i c cs out\<rparr>
               in (case getLastEnvEntry (envList s) t of
                     None \<Rightarrow> Inl (NullDereference, s')
                   | Some l \<Rightarrow> Inr (l, s'))))"

text \<open>\<^verbatim>\<open>exRepeat(e)\<close> returns the slot it jumps to.\<close>

definition exRepeat :: "registry \<Rightarrow> pthread_t \<Rightarrow> nat option \<Rightarrow> (nat \<times> registry) result" where
  "exRepeat s t e =
     (case getExceptionEntry (exceptionList s) e of
        None \<Rightarrow> Inl (NullDereference, s)
      | Some i \<Rightarrow>
          if \<not> ex_used (exceptionList s ! i) then Inl (AssertionFailed, s)
          else if ex_thrown (exceptionList s ! i) then Inl (AssertionFailed, s)
          else
            let s' = s\<lparr>exceptionList := (exceptionList s)
                          [i := (exceptionList s ! i)\<lparr>ex_thrown := True, ex_thread := t\<rparr>]\<rparr>
            in (case getLastEnvEntry (envList s) t of
                  None \<Rightarrow> Inl (NullDereference, s')
                | Some l \<Rightarrow> Inr (l, s')))"

text \<open>
  The loop of \<^verbatim>\<open>exFree\<close>, \<^verbatim>\<open>for (; e; e = e->cause) getExceptionEntry(e)->used = 0;\<close>.
  It follows the cause pointers until \<^verbatim>\<open>NULL\<close> and does not end on a cycle: the
  result is \<open>None\<close> when the loop runs forever.
\<close>

partial_function (option) exFree_loop ::
  "ExceptionEntry list \<Rightarrow> nat option \<Rightarrow> (ExceptionEntry list + ExceptionEntry list) option" where
  "exFree_loop xs e =
     (case e of
        None \<Rightarrow> Some (Inr xs)
      | Some h \<Rightarrow>
          (case getExceptionEntry xs e of
             None \<Rightarrow> Some (Inl xs)
           | Some i \<Rightarrow> exFree_loop (xs[i := (xs ! i)\<lparr>ex_used := False\<rparr>]) (cause (exception (xs ! i)))))"

declare exFree_loop.simps [code]

definition exFree :: "registry \<Rightarrow> nat option \<Rightarrow> registry result option" where
  "exFree s e =
     (case getExceptionEntry (exceptionList s) e of
        None \<Rightarrow> Some (Inl (NullDereference, s))
      | Some i \<Rightarrow>
          if \<not> ex_used (exceptionList s ! i) then Some (Inl (AssertionFailed, s))
          else if ex_cause (exceptionList s ! i) then Some (Inl (AssertionFailed, s))
          else if ex_thrown (exceptionList s ! i) then Some (Inl (AssertionFailed, s))
          else (case exFree_loop (exceptionList s) e of
                  None \<Rightarrow> None
                | Some (Inl xs) \<Rightarrow> Some (Inl (NullDereference, s\<lparr>exceptionList := xs\<rparr>))
                | Some (Inr xs) \<Rightarrow> Some (Inr (s\<lparr>exceptionList := xs\<rparr>))))"

text \<open>
  The macros of \<^verbatim>\<open>except.h\<close>: \<^verbatim>\<open>try\<close> enters a block with \<^verbatim>\<open>pushCallingEnv\<close>; \<^verbatim>\<open>catch(e)\<close>
  ends the body with \<^verbatim>\<open>popCallingEnv(NULL)\<close> and opens the handler, reached by a
  jump, with \<^verbatim>\<open>popCallingEnv(&e)\<close>.
\<close>

definition try_enter :: "registry \<Rightarrow> pthread_t \<Rightarrow> (nat \<times> registry) result" where
  "try_enter s t = pushCallingEnv s t"

definition catch_normal_exit :: "registry \<Rightarrow> pthread_t \<Rightarrow> registry result" where
  "catch_normal_exit s t = popCallingEnv s t None"

definition catch_handler :: "registry \<Rightarrow> pthread_t \<Rightarrow> nat \<Rightarrow> registry result" where
  "catch_handler s t v = popCallingEnv s t (Some v)"

section \<open>Runs of the mechanism\<close>

text \<open>
  A call of the API by some thread. The template and arguments of \<^verbatim>\<open>exAlloc\<close> and
  \<^verbatim>\<open>exThrow\<close> are given by the characters they expand to.
\<close>

datatype call =
    Push pthread_t
  | Pop pthread_t "nat option"
  | Alloc ExceptionCode "nat option" "char list"
  | Throw pthread_t ExceptionCode "nat option" "char list"
  | Repeat pthread_t "nat option"
  | Free "nat option"

text \<open>
  One step of a run: the state after the call, when the call returns or jumps; \<open>None\<close>
  when it stops the program or never returns.
\<close>

fun step :: "registry \<Rightarrow> call \<Rightarrow> registry option" where
  "step s (Push t) = (case pushCallingEnv s t of Inl _ \<Rightarrow> None | Inr (u, s') \<Rightarrow> Some s')"
| "step s (Pop t e) = (case popCallingEnv s t e of Inl _ \<Rightarrow> None | Inr s' \<Rightarrow> Some s')"
| "step s (Alloc c cs out) = (case exAlloc s c cs out of Inl _ \<Rightarrow> None | Inr (h, s') \<Rightarrow> Some s')"
| "step s (Throw t c cs out) =
     (case exThrow s t c cs out of Inl _ \<Rightarrow> None | Inr (l, s') \<Rightarrow> Some s')"
| "step s (Repeat t e) = (case exRepeat s t e of Inl _ \<Rightarrow> None | Inr (l, s') \<Rightarrow> Some s')"
| "step s (Free e) = (case exFree s e of Some (Inr s') \<Rightarrow> Some s' | _ \<Rightarrow> None)"

fun run :: "registry \<Rightarrow> call list \<Rightarrow> registry option" where
  "run s [] = Some s"
| "run s (c # cs) = (case step s c of None \<Rightarrow> None | Some s' \<Rightarrow> run s' cs)"

text \<open>The states the program can be in: those a run from the initial state ends in.\<close>

definition reachable :: "registry \<Rightarrow> bool" where
  "reachable s = (\<exists>vars cs. run (exInit vars) cs = Some s)"

section \<open>Notions of the specification\<close>

subsection \<open>Resumption points\<close>

text \<open>Slot \<open>i\<close> is in use and owned by thread \<open>t\<close>.\<close>

definition owned :: "EnvEntry list \<Rightarrow> pthread_t \<Rightarrow> nat \<Rightarrow> bool" where
  "owned es t i = (i < length es \<and> env_used (es ! i) \<and> env_thread (es ! i) = t)"

text \<open>The count of slots in use and owned by thread \<open>t\<close>.\<close>

definition count_owned :: "EnvEntry list \<Rightarrow> pthread_t \<Rightarrow> nat" where
  "count_owned es t = length (filter (\<lambda>e. env_used e \<and> env_thread e = t) es)"

text \<open>
  Slot \<open>l\<close> is the most recent resumption point of thread \<open>t\<close>: in use, owned by \<open>t\<close>,
  of the greatest level, and of the greatest index among those of that level.
\<close>

definition most_recent :: "EnvEntry list \<Rightarrow> pthread_t \<Rightarrow> nat \<Rightarrow> bool" where
  "most_recent es t l =
     (owned es t l \<and>
      (\<forall>j. owned es t j \<longrightarrow> env_level (es ! j) \<le> env_level (es ! l)) \<and>
      (\<forall>j. owned es t j \<and> env_level (es ! j) = env_level (es ! l) \<longrightarrow> j \<le> l))"

text \<open>
  What the loop of \<^verbatim>\<open>getLastEnvEntry\<close> holds in \<^verbatim>\<open>last\<close> when the indices below \<open>n\<close> are
  still to be visited (used in the proofs).
\<close>

definition last_from :: "EnvEntry list \<Rightarrow> pthread_t \<Rightarrow> nat \<Rightarrow> nat option \<Rightarrow> bool" where
  "last_from es t n lst =
     (case lst of
        None \<Rightarrow> (\<forall>j \<ge> n. \<not> owned es t j)
      | Some l \<Rightarrow> owned es t l \<and> n \<le> l \<and>
          (\<forall>j \<ge> n. owned es t j \<longrightarrow> env_level (es ! j) \<le> env_level (es ! l) \<and>
               (env_level (es ! j) = env_level (es ! l) \<longrightarrow> j \<le> l)))"

text \<open>The levels of the slots in use and owned by thread \<open>t\<close>, in pool order.\<close>

definition levels_of :: "EnvEntry list \<Rightarrow> pthread_t \<Rightarrow> nat list" where
  "levels_of es t = map env_level (filter (\<lambda>e. env_used e \<and> env_thread e = t) es)"

text \<open>
  The invariant of the environment registry: at most one slot per (thread, level) pair
  is in use, and the levels of the slots in use of any one thread, put in increasing
  order, are 0, 1, ..., one less than their count.
\<close>

definition env_inv :: "EnvEntry list \<Rightarrow> bool" where
  "env_inv es =
     ((\<forall>i j. i < length es \<and> j < length es \<and> env_used (es ! i) \<and> env_used (es ! j) \<and>
             env_thread (es ! i) = env_thread (es ! j) \<and> env_level (es ! i) = env_level (es ! j)
             \<longrightarrow> i = j) \<and>
      (\<forall>t. sort (levels_of es t) = [0..<count_owned es t]))"

text \<open>The same for one thread, on the set of its slots: the form the proofs use.\<close>

definition stack_ok :: "EnvEntry list \<Rightarrow> pthread_t \<Rightarrow> bool" where
  "stack_ok es t =
     (inj_on (\<lambda>i. env_level (es ! i)) {i. owned es t i} \<and>
      (\<lambda>i. env_level (es ! i)) ` {i. owned es t i} = {0..<card {i. owned es t i}})"

text \<open>
  The slots thread \<open>t\<close> reserved along a run, in the order of its entries into protected
  blocks: one for each \<^verbatim>\<open>pushCallingEnv\<close> of \<open>t\<close>.
\<close>

fun entered :: "pthread_t \<Rightarrow> registry \<Rightarrow> call list \<Rightarrow> nat list" where
  "entered t s [] = []"
| "entered t s (c # cs) =
     (case step s c of
        None \<Rightarrow> []
      | Some s' \<Rightarrow>
          (if c = Push t then (case pushCallingEnv s t of Inl err \<Rightarrow> [] | Inr (u, s'') \<Rightarrow> [u])
           else [])
          @ entered t s' cs)"

text \<open>Slot \<open>u\<close> is the innermost open block of thread \<open>t\<close> (used in the proofs).\<close>

definition top :: "EnvEntry list \<Rightarrow> pthread_t \<Rightarrow> nat \<Rightarrow> bool" where
  "top es t u = (owned es t u \<and> Suc (env_level (es ! u)) = count_owned es t)"

subsection \<open>Exception records\<close>

text \<open>Record \<open>i\<close> is in use, thrown and owned by thread \<open>t\<close>.\<close>

definition in_flight :: "ExceptionEntry list \<Rightarrow> pthread_t \<Rightarrow> nat \<Rightarrow> bool" where
  "in_flight xs t i = (i < length xs \<and> ex_used (xs ! i) \<and> ex_thrown (xs ! i) \<and> ex_thread (xs ! i) = t)"

text \<open>The record a call of \<^verbatim>\<open>popCallingEnv\<close> by thread \<open>t\<close> finds in state \<open>s\<close>; \<open>None\<close> for a normal exit.\<close>

definition delivered :: "registry \<Rightarrow> pthread_t \<Rightarrow> nat option" where
  "delivered s t = popCallingEnv_scan (exceptionList s) t 0"



text \<open>
  The cause chain from handle \<open>e\<close>: the records visited by following the cause pointers
  until \<^verbatim>\<open>NULL\<close>, in the order visited. Its length is the length of the chain.
\<close>

inductive chain :: "ExceptionEntry list \<Rightarrow> nat option \<Rightarrow> nat list \<Rightarrow> bool" where
  chain_end: "chain xs None []"
| chain_link: "h < length xs \<Longrightarrow> chain xs (cause (exception (xs ! h))) hs \<Longrightarrow> chain xs (Some h) (h # hs)"

text \<open>The pool with the records of the set \<open>A\<close> returned to it: their in-use flag cleared.\<close>

definition release :: "nat set \<Rightarrow> ExceptionEntry list \<Rightarrow> ExceptionEntry list" where
  "release A xs = map (\<lambda>i. if i \<in> A then (xs ! i)\<lparr>ex_used := False\<rparr> else xs ! i) [0..<length xs]"

text \<open>
  Every message buffer has the size of its C type, \<^verbatim>\<open>char msg[MAX_MSG_LEN]\<close>. In the
  model a write beyond the end of a buffer makes the list longer.
\<close>

definition msg_sized :: "ExceptionEntry list \<Rightarrow> bool" where
  "msg_sized xs = (\<forall>i < length xs. length (msg (exception (xs ! i))) = MAX_MSG_LEN)"

text \<open>
  The C string a buffer holds: its characters before the first null character.
\<close>

definition c_string :: "char list \<Rightarrow> char list" where
  "c_string buf = takeWhile (\<lambda>ch. ch \<noteq> NUL) buf"

text \<open>Record \<open>q\<close> is in use and its cause pointer points to record \<open>r\<close>.\<close>

definition points_to :: "ExceptionEntry list \<Rightarrow> nat \<Rightarrow> nat \<Rightarrow> bool" where
  "points_to xs q r = (q < length xs \<and> ex_used (xs ! q) \<and> cause (exception (xs ! q)) = Some r)"

text \<open>The records in use whose cause pointer points to \<open>r\<close>.\<close>

definition referrers :: "ExceptionEntry list \<Rightarrow> nat \<Rightarrow> nat list" where
  "referrers xs r =
     filter (\<lambda>q. ex_used (xs ! q) \<and> cause (exception (xs ! q)) = Some r) [0..<length xs]"

text \<open>
  The invariant of the exception registry, about causes: the cause of a record in use
  is a record of the pool, in use and marked as a cause; no two records in use have
  the same cause; a record in use that is marked as a cause is the cause of a record
  in use; and the cause pointers of the records in use form no cycle (some rank
  decreases along them).
\<close>

definition cause_inv :: "ExceptionEntry list \<Rightarrow> bool" where
  "cause_inv xs =
     ((\<forall>q r. points_to xs q r \<longrightarrow> r < length xs \<and> ex_used (xs ! r) \<and> ex_cause (xs ! r)) \<and>
      (\<forall>q q' r. points_to xs q r \<and> points_to xs q' r \<longrightarrow> q = q') \<and>
      (\<forall>r. r < length xs \<and> ex_used (xs ! r) \<and> ex_cause (xs ! r) \<longrightarrow> (\<exists>q. points_to xs q r)) \<and>
      (\<exists>rank :: nat \<Rightarrow> nat. \<forall>q r. points_to xs q r \<longrightarrow> rank r < rank q))"

text \<open>The count of records in use.\<close>

definition used_count :: "ExceptionEntry list \<Rightarrow> nat" where
  "used_count xs = length (filter ex_used xs)"

text \<open>
  The call frees a record that is in flight: a call of \<^verbatim>\<open>exFree\<close> that returns and
  clears the in-use flag of a record that is in use and thrown. A run is disciplined
  when no call of it does so (used in the proofs).
\<close>

fun frees_thrown :: "registry \<Rightarrow> call \<Rightarrow> bool" where
  "frees_thrown s (Free e) =
     (case exFree s e of
        Some (Inr s') \<Rightarrow>
          (\<exists>i < length (exceptionList s).
              ex_used (exceptionList s ! i) \<and> ex_thrown (exceptionList s ! i) \<and>
              \<not> ex_used (exceptionList s' ! i))
      | _ \<Rightarrow> False)"
| "frees_thrown s c = False"

fun disciplined :: "registry \<Rightarrow> call list \<Rightarrow> bool" where
  "disciplined s [] = True"
| "disciplined s (c # cs) =
     (\<not> frees_thrown s c \<and> (case step s c of None \<Rightarrow> True | Some s' \<Rightarrow> disciplined s' cs))"

text \<open>Every thrown record is in use (equivalently: a record not in use is not thrown).\<close>

definition thrown_used :: "ExceptionEntry list \<Rightarrow> bool" where
  "thrown_used xs = (\<forall>i < length xs. ex_thrown (xs ! i) \<longrightarrow> ex_used (xs ! i))"

text \<open>
  The check \<^verbatim>\<open>exRepeat\<close> does not make: the record given is marked as a cause
  (\<^verbatim>\<open>exAlloc\<close> and \<^verbatim>\<open>exThrow\<close> assert \<^verbatim>\<open>!cause\<close> of the cause given, \<^verbatim>\<open>exFree\<close> of the
  record given). A run is careful when \<^verbatim>\<open>exRepeat\<close> is never called with such a record.
\<close>

fun repeats_cause :: "registry \<Rightarrow> call \<Rightarrow> bool" where
  "repeats_cause s (Repeat t e) =
     (case getExceptionEntry (exceptionList s) e of
        None \<Rightarrow> False
      | Some i \<Rightarrow> ex_cause (exceptionList s ! i))"
| "repeats_cause s c = False"

fun careful :: "registry \<Rightarrow> call list \<Rightarrow> bool" where
  "careful s [] = True"
| "careful s (c # cs) =
     (\<not> repeats_cause s c \<and> (case step s c of None \<Rightarrow> True | Some s' \<Rightarrow> careful s' cs))"

text \<open>No record in use is both thrown and marked as a cause.\<close>

definition thrown_not_cause :: "ExceptionEntry list \<Rightarrow> bool" where
  "thrown_not_cause xs =
     (\<forall>i < length xs. ex_used (xs ! i) \<and> ex_thrown (xs ! i) \<longrightarrow> \<not> ex_cause (xs ! i))"

section \<open>Concrete states\<close>

text \<open>
  States of a run of thread 1, for the instances of the theorems below. The initial
  state; thread 1 in its first block, and in a second block within it; the same with a
  block of thread 2 entered in between.
\<close>

definition demo_init :: registry where
  "demo_init = exInit (\<lambda>v. None)"

definition demo_entered :: registry where
  "demo_entered = demo_init\<lparr>envList := (envList demo_init)
     [0 := \<lparr>env_used = True, env_level = 0, env_thread = 1\<rparr>]\<rparr>"

definition demo_nested :: registry where
  "demo_nested = demo_entered\<lparr>envList := (envList demo_entered)
     [1 := \<lparr>env_used = True, env_level = 1, env_thread = 1\<rparr>]\<rparr>"

definition demo_two_threads :: registry where
  "demo_two_threads = demo_init\<lparr>envList := (envList demo_init)
     [0 := \<lparr>env_used = True, env_level = 0, env_thread = 1\<rparr>,
      1 := \<lparr>env_used = True, env_level = 0, env_thread = 2\<rparr>,
      2 := \<lparr>env_used = True, env_level = 1, env_thread = 1\<rparr>]\<rparr>"

text \<open>
  In its second block thread 1 throws; it catches the record in its variable 7, repeats
  it and catches it again in the first block.
\<close>

definition demo_record :: "bool \<Rightarrow> ExceptionEntry" where
  "demo_record th =
     \<lparr>exception = \<lparr>code = exOther,
                    msg = vsnprintf (replicate MAX_MSG_LEN NUL) MAX_MSG_LEN ''No error.'',
                    cause = None\<rparr>,
      ex_used = True, ex_thrown = th, ex_cause = False, ex_thread = 1\<rparr>"

definition demo_thrown :: registry where
  "demo_thrown = demo_nested\<lparr>exceptionList := (exceptionList demo_init)[0 := demo_record True]\<rparr>"

definition demo_caught :: registry where
  "demo_caught =
     \<lparr>envList = (envList demo_nested)[1 := \<lparr>env_used = False, env_level = 1, env_thread = 1\<rparr>],
      exceptionList = (exceptionList demo_init)[0 := demo_record False],
      ptrs = (\<lambda>v. None)(7 := Some 0)\<rparr>"

definition demo_repeated :: registry where
  "demo_repeated = demo_caught\<lparr>exceptionList := (exceptionList demo_init)[0 := demo_record True]\<rparr>"

definition demo_recaught :: registry where
  "demo_recaught = demo_caught\<lparr>envList := (envList demo_caught)
     [0 := \<lparr>env_used = False, env_level = 0, env_thread = 1\<rparr>]\<rparr>"

text \<open>
  Instead of repeating it, the handler wraps the caught record as the cause of a new
  record; then the new record is freed.
\<close>

definition demo_wrapper :: "bool \<Rightarrow> ExceptionEntry" where
  "demo_wrapper u =
     \<lparr>exception = \<lparr>code = exOther,
                    msg = vsnprintf (replicate MAX_MSG_LEN NUL) MAX_MSG_LEN ''Wrapped.'',
                    cause = Some 0\<rparr>,
      ex_used = u, ex_thrown = False, ex_cause = False, ex_thread = 0\<rparr>"

definition demo_wrapped :: registry where
  "demo_wrapped = demo_caught\<lparr>exceptionList := (exceptionList demo_init)
     [0 := (demo_record False)\<lparr>ex_cause := True\<rparr>, 1 := demo_wrapper True]\<rparr>"

definition demo_freed :: registry where
  "demo_freed = demo_caught\<lparr>exceptionList := (exceptionList demo_init)
     [0 := (demo_record False)\<lparr>ex_used := False, ex_cause := True\<rparr>, 1 := demo_wrapper False]\<rparr>"

text \<open>
  Or the wrapped record is repeated while it is a cause, and the wrapper is freed before
  the repeated record is delivered.
\<close>

definition demo_repeated_cause :: registry where
  "demo_repeated_cause = demo_caught\<lparr>exceptionList := (exceptionList demo_init)
     [0 := (demo_record True)\<lparr>ex_cause := True\<rparr>, 1 := demo_wrapper True]\<rparr>"

definition demo_stale :: registry where
  "demo_stale = demo_caught\<lparr>exceptionList := (exceptionList demo_init)
     [0 := (demo_record True)\<lparr>ex_used := False, ex_cause := True\<rparr>, 1 := demo_wrapper False]\<rparr>"

text \<open>
  Then \<^verbatim>\<open>exAlloc\<close> builds a new record in the slot released with its thrown flag set, and
  thread 1 reaches the \<^verbatim>\<open>popCallingEnv\<close> of its first block.
\<close>

definition demo_fresh :: registry where
  "demo_fresh = demo_caught\<lparr>exceptionList := (exceptionList demo_init)
     [0 := \<lparr>exception = \<lparr>code = exOther,
                msg = vsnprintf (vsnprintf (replicate MAX_MSG_LEN NUL) MAX_MSG_LEN ''No error.'')
                        MAX_MSG_LEN ''Fresh.'',
                cause = None\<rparr>,
            ex_used = True, ex_thrown = True, ex_cause = False, ex_thread = 1\<rparr>,
      1 := demo_wrapper False]\<rparr>"

definition demo_fresh_caught :: registry where
  "demo_fresh_caught =
     \<lparr>envList = (envList demo_caught)[0 := \<lparr>env_used = False, env_level = 0, env_thread = 1\<rparr>],
      exceptionList = (exceptionList demo_fresh)
        [0 := (exceptionList demo_fresh ! 0)\<lparr>ex_thrown := False\<rparr>],
      ptrs = (\<lambda>v. None)(7 := Some 0)\<rparr>"

text \<open>
  Or, from the state in which thread 1 has caught its record, thread 2 enters a block
  and throws a record of its own.
\<close>

definition demo_other_entered :: registry where
  "demo_other_entered = demo_caught\<lparr>envList := (envList demo_caught)
     [1 := \<lparr>env_used = True, env_level = 0, env_thread = 2\<rparr>]\<rparr>"


text \<open>
  Or, after thread 2 has entered its block, thread 1 enters a block again, within its
  first block.
\<close>

definition demo_reentered :: registry where
  "demo_reentered = demo_other_entered\<lparr>envList := (envList demo_other_entered)
     [2 := \<lparr>env_used = True, env_level = 1, env_thread = 1\<rparr>]\<rparr>"

text \<open>An expansion of 3000 characters, none of them null.\<close>

definition demo_long :: "char list" where
  "demo_long = replicate 3000 (CHR ''a'')"

text \<open>
  An expansion of 3000 characters whose second character is a null character (as
  \<^verbatim>\<open>%c\<close> gives for the argument 0), and the initial state after \<^verbatim>\<open>exAlloc\<close> with it.
\<close>

definition demo_nul :: "char list" where
  "demo_nul = CHR ''a'' # NUL # replicate 2998 (CHR ''a'')"

definition demo_nul_stored :: registry where
  "demo_nul_stored = demo_init\<lparr>exceptionList := (exceptionList demo_init)
     [0 := \<lparr>exception = \<lparr>code = exOther,
                msg = CHR ''a'' # NUL # replicate 2045 (CHR ''a'') @ [NUL], cause = None\<rparr>,
            ex_used = True, ex_thrown = False, ex_cause = False, ex_thread = 0\<rparr>]\<rparr>"

section \<open>Entering a protected block\<close>

lemma pushCallingEnv_scan_level:
  "snd (pushCallingEnv_scan es t i (un, lvl)) = lvl + count_owned es t"
  by (induction es arbitrary: i un lvl) (auto simp: count_owned_def)

lemma pushCallingEnv_scan_Some:
  "fst (pushCallingEnv_scan es t i (Some u, lvl)) = Some u"
  by (induction es arbitrary: i lvl) auto

lemma pushCallingEnv_scan_None:
  "fst (pushCallingEnv_scan es t i (None, lvl)) = Some u \<Longrightarrow>
     i \<le> u \<and> u - i < length es \<and> \<not> env_used (es ! (u - i)) \<and> (\<forall>j < u - i. env_used (es ! j))"
proof (induction es arbitrary: i lvl)
  case Nil
  then show ?case by simp
next
  case (Cons entry rest)
  show ?case
  proof (cases "env_used entry")
    case True
    with Cons.prems
    have "fst (pushCallingEnv_scan rest t (Suc i)
                 (None, if env_thread entry = t then Suc lvl else lvl)) = Some u"
      by (simp split: if_splits)
    from Cons.IH[OF this]
    have ih: "Suc i \<le> u" "u - Suc i < length rest" "\<not> env_used (rest ! (u - Suc i))"
      "\<forall>j < u - Suc i. env_used (rest ! j)" by auto
    then have "u - i = Suc (u - Suc i)" by arith
    with ih True show ?thesis by (auto simp: nth_Cons')
  next
    case False
    with Cons.prems have "u = i" by (simp add: pushCallingEnv_scan_Some)
    with False show ?thesis by simp
  qed
qed

lemma pushCallingEnv_scan_full:
  "fst (pushCallingEnv_scan es t i (None, lvl)) = None \<longleftrightarrow> (\<forall>e \<in> set es. env_used e)"
  by (induction es arbitrary: i lvl) (auto simp: pushCallingEnv_scan_Some)

text \<open>What a successful \<^verbatim>\<open>pushCallingEnv\<close> does, for the proofs below.\<close>

lemma pushCallingEnv_Inr:
  assumes "pushCallingEnv s t = Inr (u, s')"
  shows "u < length (envList s)" and "\<not> env_used (envList s ! u)"
    and "\<forall>j < u. env_used (envList s ! j)"
    and "s' = s\<lparr>envList := (envList s)[u := (envList s ! u)
           \<lparr>env_used := True, env_level := count_owned (envList s) t, env_thread := t\<rparr>]\<rparr>"
proof -
  obtain un lvl where sc: "pushCallingEnv_scan (envList s) t 0 (None, 0) = (un, lvl)"
    by (cases "pushCallingEnv_scan (envList s) t 0 (None, 0)")
  with assms have un: "un = Some u"
    and s': "s' = s\<lparr>envList := (envList s)[u := (envList s ! u)
               \<lparr>env_used := True, env_level := lvl, env_thread := t\<rparr>]\<rparr>"
    by (auto simp: pushCallingEnv_def split: option.splits)
  from pushCallingEnv_scan_level[of "envList s" t 0 None 0] sc
  have lvl: "lvl = count_owned (envList s) t" by simp
  from pushCallingEnv_scan_None[of "envList s" t 0 0 u] sc un
  show "u < length (envList s)" "\<not> env_used (envList s ! u)" "\<forall>j < u. env_used (envList s ! j)"
    by auto
  from s' lvl
  show "s' = s\<lparr>envList := (envList s)[u := (envList s ! u)
           \<lparr>env_used := True, env_level := count_owned (envList s) t, env_thread := t\<rparr>]\<rparr>"
    by simp
qed

lemma exInit_envList: "envList (exInit vars) = replicate 16 zeroEnvEntry"
  by (simp add: exInit_def ENV_LIST_SIZE_def)

lemma exInit_exceptionList: "exceptionList (exInit vars) = replicate 16 zeroExceptionEntry"
  by (simp add: exInit_def EXCEPTION_LIST_SIZE_def)

text \<open>
  Claim C5, as stated: the level assigned to the new slot is 1 + (the count of the slots
  in use and owned by the calling thread). It fails for the first block a thread
  enters: the count is 0 and the level assigned is 0, not 1.
\<close>

theorem pushCallingEnv_level_not_count_plus_one:
  "(case pushCallingEnv demo_init 1 of
      Inl err \<Rightarrow> False
    | Inr (u, s') \<Rightarrow>
        env_level (envList s' ! u) = 0 \<and>
        env_level (envList s' ! u) \<noteq> 1 + count_owned (envList demo_init) 1)"
  by (simp add: pushCallingEnv_def demo_init_def exInit_envList zeroEnvEntry_def count_owned_def
      eval_nat_numeral)

text \<open>
  Claim C5, amended: when a protected block is entered, \<^verbatim>\<open>pushCallingEnv\<close> reserves the
  first slot not in use, assigns it a nesting level equal to the count of the slots in
  use and owned by the calling thread (so the levels of a thread start at 0), and marks
  the slot used with the calling thread's identity.
\<close>

theorem pushCallingEnv_level_is_count:
  assumes "pushCallingEnv s t = Inr (u, s')"
  shows "u < length (envList s) \<and> \<not> env_used (envList s ! u)
       \<and> env_level (envList s' ! u) = count_owned (envList s) t
       \<and> env_used (envList s' ! u) \<and> env_thread (envList s' ! u) = t"
  using pushCallingEnv_Inr[OF assms] by simp

theorem pushCallingEnv_level_is_count_witness:
  "pushCallingEnv demo_init 1 = Inr (0, demo_entered)
   \<and> (0 < length (envList demo_init) \<and> \<not> env_used (envList demo_init ! 0)
       \<and> env_level (envList demo_entered ! 0) = count_owned (envList demo_init) 1
       \<and> env_used (envList demo_entered ! 0) \<and> env_thread (envList demo_entered ! 0) = 1)"
proof -
  have p: "pushCallingEnv demo_init 1 = Inr (0, demo_entered)"
    by (simp add: pushCallingEnv_def demo_init_def demo_entered_def exInit_envList
        zeroEnvEntry_def eval_nat_numeral)
  from p pushCallingEnv_level_is_count[OF p] show ?thesis by blast
qed

section \<open>The most recent resumption point\<close>

lemma last_from_step:
  assumes "last_from es t (Suc i) lst" and "i < length es"
  shows "last_from es t i
       (if env_used (es ! i) \<and> env_thread (es ! i) = t
        then (case lst of
                None \<Rightarrow> Some i
              | Some l \<Rightarrow> if env_level (es ! i) > env_level (es ! l) then Some i else Some l)
        else lst)"
proof -
  have split: "\<And>j. i \<le> j \<longleftrightarrow> j = i \<or> Suc i \<le> j" by arith
  show ?thesis
  proof (cases "env_used (es ! i) \<and> env_thread (es ! i) = t")
    case False
    then have "\<not> owned es t i" by (simp add: owned_def)
    with assms(1) show ?thesis using False
      by (cases lst) (auto simp: last_from_def split)
  next
    case True
    then have o: "owned es t i" using assms(2) by (simp add: owned_def)
    show ?thesis
    proof (cases lst)
      case None
      with assms(1) o True show ?thesis by (auto simp: last_from_def split)
    next
      case (Some l)
      with assms(1) have l: "owned es t l" "Suc i \<le> l"
        "\<forall>j \<ge> Suc i. owned es t j \<longrightarrow> env_level (es ! j) \<le> env_level (es ! l) \<and>
               (env_level (es ! j) = env_level (es ! l) \<longrightarrow> j \<le> l)"
        by (auto simp: last_from_def)
      show ?thesis
      proof (cases "env_level (es ! i) > env_level (es ! l)")
        case gt: True
        have "\<forall>j \<ge> i. owned es t j \<longrightarrow> env_level (es ! j) \<le> env_level (es ! i) \<and>
               (env_level (es ! j) = env_level (es ! i) \<longrightarrow> j \<le> i)"
        proof (intro allI impI)
          fix j assume "i \<le> j" "owned es t j"
          then consider "j = i" | "Suc i \<le> j" by arith
          then show "env_level (es ! j) \<le> env_level (es ! i) \<and>
               (env_level (es ! j) = env_level (es ! i) \<longrightarrow> j \<le> i)"
          proof cases
            case 1 then show ?thesis by simp
          next
            case 2
            with l(3) \<open>owned es t j\<close> have "env_level (es ! j) \<le> env_level (es ! l)" by blast
            with gt show ?thesis by simp
          qed
        qed
        with o gt True Some show ?thesis by (simp add: last_from_def)
      next
        case le: False
        have "\<forall>j \<ge> i. owned es t j \<longrightarrow> env_level (es ! j) \<le> env_level (es ! l) \<and>
               (env_level (es ! j) = env_level (es ! l) \<longrightarrow> j \<le> l)"
        proof (intro allI impI)
          fix j assume "i \<le> j" "owned es t j"
          then consider "j = i" | "Suc i \<le> j" by arith
          then show "env_level (es ! j) \<le> env_level (es ! l) \<and>
               (env_level (es ! j) = env_level (es ! l) \<longrightarrow> j \<le> l)"
          proof cases
            case 1 with le l(2) show ?thesis by simp
          next
            case 2
            with l(3) \<open>owned es t j\<close> show ?thesis by blast
          qed
        qed
        with l le True Some show ?thesis by (simp add: last_from_def)
      qed
    qed
  qed
qed

lemma getLastEnvEntry_loop_last_from:
  "n \<le> length es \<Longrightarrow> last_from es t n lst \<Longrightarrow> last_from es t 0 (getLastEnvEntry_loop es t n lst)"
proof (induction n arbitrary: lst)
  case 0
  then show ?case by simp
next
  case (Suc n)
  from Suc.prems have "n < length es" by simp
  from last_from_step[OF Suc.prems(2) this] Suc.IH Suc.prems(1) show ?case by simp
qed

lemma getLastEnvEntry_last_from: "last_from es t 0 (getLastEnvEntry es t)"
  unfolding getLastEnvEntry_def
  by (rule getLastEnvEntry_loop_last_from) (auto simp: last_from_def owned_def)

lemma getLastEnvEntry_None: "getLastEnvEntry es t = None \<longleftrightarrow> (\<forall>j. \<not> owned es t j)"
  using getLastEnvEntry_last_from[of es t]
  by (cases "getLastEnvEntry es t") (auto simp: last_from_def)

lemma getLastEnvEntry_Some: "getLastEnvEntry es t = Some l \<Longrightarrow> most_recent es t l"
  using getLastEnvEntry_last_from[of es t]
  by (auto simp: last_from_def most_recent_def)

section \<open>Leaving a protected block\<close>

lemma popCallingEnv_scan_Some:
  "popCallingEnv_scan xs t i = Some k \<Longrightarrow>
     i \<le> k \<and> in_flight xs t (k - i) \<and> (\<forall>j < k - i. \<not> in_flight xs t j)"
proof (induction xs arbitrary: i)
  case Nil
  then show ?case by simp
next
  case (Cons entry rest)
  show ?case
  proof (cases "ex_used entry \<and> ex_thrown entry \<and> ex_thread entry = t")
    case True
    with Cons.prems have "k = i" by simp
    with True show ?thesis by (simp add: in_flight_def)
  next
    case False
    with Cons.prems have "popCallingEnv_scan rest t (Suc i) = Some k" by auto
    from Cons.IH[OF this]
    have ih: "Suc i \<le> k" "in_flight rest t (k - Suc i)" "\<forall>j < k - Suc i. \<not> in_flight rest t j"
      by auto
    then have "k - i = Suc (k - Suc i)" by arith
    with ih False show ?thesis by (auto simp: in_flight_def nth_Cons')
  qed
qed

lemma popCallingEnv_scan_None:
  "popCallingEnv_scan xs t i = None \<longleftrightarrow> (\<forall>j. \<not> in_flight xs t j)"
proof (induction xs arbitrary: i)
  case Nil
  then show ?case by (simp add: in_flight_def)
next
  case (Cons entry rest)
  have "(\<forall>j. \<not> in_flight (entry # rest) t j) \<longleftrightarrow>
        \<not> in_flight (entry # rest) t 0 \<and> (\<forall>j. \<not> in_flight rest t j)"
    by (auto simp: in_flight_def nth_Cons split: nat.splits)
  with Cons.IH show ?case by (auto simp: in_flight_def)
qed

lemma delivered_Some:
  "delivered s t = Some i \<longleftrightarrow>
     in_flight (exceptionList s) t i \<and> (\<forall>j < i. \<not> in_flight (exceptionList s) t j)"
proof
  assume "delivered s t = Some i"
  from popCallingEnv_scan_Some[OF this[unfolded delivered_def]]
  show "in_flight (exceptionList s) t i \<and> (\<forall>j < i. \<not> in_flight (exceptionList s) t j)" by simp
next
  assume r: "in_flight (exceptionList s) t i \<and> (\<forall>j < i. \<not> in_flight (exceptionList s) t j)"
  then have "delivered s t \<noteq> None"
    by (auto simp: delivered_def popCallingEnv_scan_None)
  then obtain k where k: "delivered s t = Some k" by auto
  from popCallingEnv_scan_Some[OF this[unfolded delivered_def]]
  have "in_flight (exceptionList s) t k" "\<forall>j < k. \<not> in_flight (exceptionList s) t j" by auto
  with r have "k = i" by (meson not_less_iff_gr_or_eq)
  with k show "delivered s t = Some i" by simp
qed

lemma delivered_None: "delivered s t = None \<longleftrightarrow> (\<forall>j. \<not> in_flight (exceptionList s) t j)"
  by (simp add: delivered_def popCallingEnv_scan_None)

lemma popCallingEnv_unfold:
  "popCallingEnv s t e =
     (case getLastEnvEntry (envList s) t of
        None \<Rightarrow> Inl (NullDereference, s)
      | Some l \<Rightarrow>
          (case delivered s t of
             None \<Rightarrow> Inr (s\<lparr>envList := (envList s)[l := (envList s ! l)\<lparr>env_used := False\<rparr>]\<rparr>)
           | Some i \<Rightarrow>
               (case e of
                  None \<Rightarrow> Inl (NullDereference,
                     s\<lparr>envList := (envList s)[l := (envList s ! l)\<lparr>env_used := False\<rparr>],
                       exceptionList := (exceptionList s)[i := (exceptionList s ! i)\<lparr>ex_thrown := False\<rparr>]\<rparr>)
                | Some v \<Rightarrow> Inr
                     (s\<lparr>envList := (envList s)[l := (envList s ! l)\<lparr>env_used := False\<rparr>],
                       exceptionList := (exceptionList s)[i := (exceptionList s ! i)\<lparr>ex_thrown := False\<rparr>],
                       ptrs := (ptrs s)(v := Some i)\<rparr>))))"
  by (simp add: popCallingEnv_def delivered_def Let_def split: option.splits)

text \<open>
  Claim C10: when \<^verbatim>\<open>popCallingEnv\<close> finds no record in use, thrown and owned by the
  calling thread, it does not write through its out-parameter. The result is the same
  whatever the parameter is, \<^verbatim>\<open>NULL\<close> included: no variable of the caller changes, and
  neither does the exception pool. The normal exit of the \<^verbatim>\<open>catch\<close> macro is this call,
  with \<^verbatim>\<open>NULL\<close>.
\<close>

theorem popCallingEnv_normal_exit:
  assumes "\<forall>i. \<not> in_flight (exceptionList s) t i"
  shows "popCallingEnv s t e = popCallingEnv s t None
       \<and> (\<forall>s'. popCallingEnv s t e = Inr s' \<longrightarrow>
              ptrs s' = ptrs s \<and> exceptionList s' = exceptionList s)
       \<and> (\<forall>err s'. popCallingEnv s t e = Inl (err, s') \<longrightarrow> s' = s)
       \<and> catch_normal_exit s t = popCallingEnv s t None"
proof -
  from assms have "delivered s t = None" by (simp add: delivered_None)
  then show ?thesis
    by (auto simp: popCallingEnv_unfold catch_normal_exit_def split: option.splits)
qed

lemma demo_entered_nothing_in_flight: "\<not> in_flight (exceptionList demo_entered) t i"
  by (auto simp: in_flight_def demo_entered_def demo_init_def exInit_exceptionList
      zeroExceptionEntry_def)

theorem popCallingEnv_normal_exit_witness:
  "(\<forall>i. \<not> in_flight (exceptionList demo_entered) 1 i)
   \<and> popCallingEnv demo_entered 1 (Some 7) = popCallingEnv demo_entered 1 None
   \<and> catch_normal_exit demo_entered 1 = popCallingEnv demo_entered 1 None"
proof -
  have h: "\<forall>i. \<not> in_flight (exceptionList demo_entered) 1 i"
    by (simp add: demo_entered_nothing_in_flight)
  from h popCallingEnv_normal_exit[OF h, of "Some 7"] show ?thesis by blast
qed

section \<open>Freeing a cause chain\<close>

lemma getExceptionEntry_scan_eq:
  "getExceptionEntry_scan xs i e = (if i \<le> e \<and> e < i + length xs then Some e else None)"
  by (induction xs arbitrary: i) auto

lemma getExceptionEntry_eq:
  "getExceptionEntry xs e =
     (case e of None \<Rightarrow> None | Some h \<Rightarrow> if h < length xs then Some h else None)"
  by (simp add: getExceptionEntry_def getExceptionEntry_scan_eq split: option.splits)

lemma length_release [simp]: "length (release A xs) = length xs"
  by (simp add: release_def)

lemma nth_release:
  "i < length xs \<Longrightarrow> release A xs ! i = (if i \<in> A then (xs ! i)\<lparr>ex_used := False\<rparr> else xs ! i)"
  by (simp add: release_def)

lemma release_empty [simp]: "release {} xs = xs"
  by (rule nth_equalityI) (simp_all add: nth_release)

lemma release_release: "release B (release A xs) = release (A \<union> B) xs"
  by (rule nth_equalityI) (auto simp: nth_release)

lemma release_update:
  "h < length xs \<Longrightarrow> xs[h := (xs ! h)\<lparr>ex_used := False\<rparr>] = release {h} xs"
  by (rule nth_equalityI) (auto simp: nth_release nth_list_update)

lemma cause_release:
  "i < length xs \<Longrightarrow> cause (exception (release A xs ! i)) = cause (exception (xs ! i))"
  by (simp add: nth_release)

lemma release_step:
  "h < length xs \<Longrightarrow>
     (release A xs)[h := (release A xs ! h)\<lparr>ex_used := False\<rparr>] = release (insert h A) xs"
  by (rule nth_equalityI) (auto simp: nth_release nth_list_update)

lemma chain_release: "chain (release A xs) e hs \<longleftrightarrow> chain xs e hs"
proof
  assume "chain (release A xs) e hs"
  then show "chain xs e hs"
  proof (induction "release A xs" e hs rule: chain.induct)
    case chain_end
    show ?case by (rule chain.chain_end)
  next
    case (chain_link h hs)
    then have "h < length xs" by simp
    moreover from chain_link this have "chain xs (cause (exception (xs ! h))) hs"
      by (simp add: cause_release)
    ultimately show ?case by (rule chain.chain_link)
  qed
next
  assume "chain xs e hs"
  then show "chain (release A xs) e hs"
  proof (induction rule: chain.induct)
    case (chain_end xs)
    show ?case by (rule chain.chain_end)
  next
    case (chain_link h xs hs)
    have "h < length (release A xs)" using chain_link by simp
    moreover have "chain (release A xs) (cause (exception (release A xs ! h))) hs"
      using chain_link by (simp add: nth_release)
    ultimately show ?case by (rule chain.chain_link)
  qed
qed

lemma chain_unique: "chain xs e hs \<Longrightarrow> chain xs e hs' \<Longrightarrow> hs = hs'"
proof (induction arbitrary: hs' rule: chain.induct)
  case (chain_end xs)
  then show ?case by (auto elim: chain.cases)
next
  case (chain_link h xs hs)
  from chain_link.prems obtain hs2 where "hs' = h # hs2"
    "chain xs (cause (exception (xs ! h))) hs2"
    by (auto elim: chain.cases)
  with chain_link.IH show ?case by simp
qed

lemma exFree_loop_chain:
  "chain xs e hs \<Longrightarrow> exFree_loop (release A xs) e = Some (Inr (release (A \<union> set hs) xs))"
proof (induction arbitrary: A rule: chain.induct)
  case (chain_end xs)
  show ?case by (simp add: exFree_loop.simps)
next
  case (chain_link h xs hs)
  have "exFree_loop (release A xs) (Some h) =
        exFree_loop ((release A xs)[h := (release A xs ! h)\<lparr>ex_used := False\<rparr>])
          (cause (exception (release A xs ! h)))"
    using chain_link.hyps(1)
    by (subst exFree_loop.simps) (simp add: getExceptionEntry_eq)
  also have "\<dots> = exFree_loop (release (insert h A) xs) (cause (exception (xs ! h)))"
    using chain_link.hyps(1) by (simp only: release_step cause_release)
  also have "\<dots> = Some (Inr (release (insert h A \<union> set hs) xs))"
    by (rule chain_link.IH)
  finally show ?case by simp
qed

lemma exFree_loop_Inr_aux:
  assumes "exFree_loop xs e = Some y"
  shows "\<forall>xs'. y = Inr xs' \<longrightarrow> (\<exists>hs. chain xs e hs \<and> xs' = release (set hs) xs)"
proof (rule exFree_loop.raw_induct[where P = "\<lambda>xs e y.
         \<forall>xs'. y = Inr xs' \<longrightarrow> (\<exists>hs. chain xs e hs \<and> xs' = release (set hs) xs)", OF _ assms])
  fix f zs c r
  assume ih: "\<And>zs c r. f zs c = Some r \<Longrightarrow>
      \<forall>xs'. r = Inr xs' \<longrightarrow> (\<exists>hs. chain zs c hs \<and> xs' = release (set hs) zs)"
    and eq: "(case c of
        None \<Rightarrow> Some (Inr zs)
      | Some h \<Rightarrow>
          (case getExceptionEntry zs c of
             None \<Rightarrow> Some (Inl zs)
           | Some i \<Rightarrow> f (zs[i := (zs ! i)\<lparr>ex_used := False\<rparr>]) (cause (exception (zs ! i))))) = Some r"
  show "\<forall>xs'. r = Inr xs' \<longrightarrow> (\<exists>hs. chain zs c hs \<and> xs' = release (set hs) zs)"
  proof (cases c)
    case None
    with eq have "r = Inr zs" by simp
    with None show ?thesis by (auto intro: chain.chain_end)
  next
    case (Some h)
    show ?thesis
    proof (cases "h < length zs")
      case False
      with Some eq show ?thesis by (auto simp: getExceptionEntry_eq)
    next
      case True
      with Some eq
      have "f (release {h} zs) (cause (exception (zs ! h))) = Some r"
        by (simp add: getExceptionEntry_eq release_update)
      from ih[OF this]
      have step: "\<forall>xs'. r = Inr xs' \<longrightarrow>
           (\<exists>hs. chain zs (cause (exception (zs ! h))) hs \<and> xs' = release ({h} \<union> set hs) zs)"
        by (simp add: chain_release release_release)
      show ?thesis
      proof (intro allI impI)
        fix xs' assume "r = Inr xs'"
        with step obtain hs where hs: "chain zs (cause (exception (zs ! h))) hs"
          "xs' = release ({h} \<union> set hs) zs" by blast
        from True hs(1) have "chain zs (Some h) (h # hs)" by (rule chain.chain_link)
        with hs(2) Some show "\<exists>hs. chain zs c hs \<and> xs' = release (set hs) zs"
          by (intro exI[of _ "h # hs"]) simp
      qed
    qed
  qed
qed

lemma exFree_loop_Inr:
  assumes "exFree_loop xs e = Some (Inr xs')"
  shows "\<exists>hs. chain xs e hs \<and> xs' = release (set hs) xs"
  using exFree_loop_Inr_aux[OF assms] by simp

lemma exFree_Inr:
  assumes "exFree s e = Some (Inr s')"
  shows "\<exists>h hs. e = Some h \<and> h < length (exceptionList s) \<and> ex_used (exceptionList s ! h) \<and>
        \<not> ex_cause (exceptionList s ! h) \<and> \<not> ex_thrown (exceptionList s ! h) \<and>
        chain (exceptionList s) e hs \<and> s' = s\<lparr>exceptionList := release (set hs) (exceptionList s)\<rparr>"
proof -
  from assms obtain h where h: "e = Some h" "h < length (exceptionList s)"
    by (cases e) (auto simp: exFree_def getExceptionEntry_eq split: if_splits)
  with assms have fl: "ex_used (exceptionList s ! h)" "\<not> ex_cause (exceptionList s ! h)"
    "\<not> ex_thrown (exceptionList s ! h)"
    by (auto simp: exFree_def getExceptionEntry_eq split: if_splits)
  with assms h obtain xs' where xs': "exFree_loop (exceptionList s) e = Some (Inr xs')"
    "s' = s\<lparr>exceptionList := xs'\<rparr>"
    by (auto simp: exFree_def getExceptionEntry_eq split: option.splits sum.splits)
  from exFree_loop_Inr[OF xs'(1)] obtain hs where "chain (exceptionList s) e hs"
    "xs' = release (set hs) (exceptionList s)" by blast
  with h fl xs'(2) show ?thesis by blast
qed

lemma exFree_chain:
  assumes "h < length (exceptionList s)" "ex_used (exceptionList s ! h)"
    "\<not> ex_cause (exceptionList s ! h)" "\<not> ex_thrown (exceptionList s ! h)"
    "chain (exceptionList s) (Some h) hs"
  shows "exFree s (Some h) = Some (Inr (s\<lparr>exceptionList := release (set hs) (exceptionList s)\<rparr>))"
proof -
  from exFree_loop_chain[OF assms(5), of "{}"]
  have "exFree_loop (exceptionList s) (Some h) = Some (Inr (release (set hs) (exceptionList s)))"
    by simp
  with assms(1-4) show ?thesis by (simp add: exFree_def getExceptionEntry_eq)
qed

section \<open>What each call does\<close>

lemma allocExceptionEntry_scan_Some:
  "allocExceptionEntry_scan xs i = Some k \<Longrightarrow>
     i \<le> k \<and> k - i < length xs \<and> \<not> ex_used (xs ! (k - i)) \<and> (\<forall>j < k - i. ex_used (xs ! j))"
proof (induction xs arbitrary: i)
  case Nil
  then show ?case by simp
next
  case (Cons entry rest)
  show ?case
  proof (cases "ex_used entry")
    case False
    with Cons.prems show ?thesis by simp
  next
    case True
    with Cons.prems have "allocExceptionEntry_scan rest (Suc i) = Some k" by simp
    from Cons.IH[OF this]
    have ih: "Suc i \<le> k" "k - Suc i < length rest" "\<not> ex_used (rest ! (k - Suc i))"
      "\<forall>j < k - Suc i. ex_used (rest ! j)" by auto
    then have "k - i = Suc (k - Suc i)" by arith
    with ih True show ?thesis by (auto simp: nth_Cons')
  qed
qed

lemma allocExceptionEntry_scan_None:
  "allocExceptionEntry_scan xs i = None \<longleftrightarrow> (\<forall>x \<in> set xs. ex_used x)"
  by (induction xs arbitrary: i) auto

lemma check_cause_None:
  "check_cause xs cs = None \<longleftrightarrow>
     (cs = None \<or> (\<exists>r. cs = Some r \<and> r < length xs \<and> ex_used (xs ! r) \<and>
                       \<not> ex_cause (xs ! r) \<and> \<not> ex_thrown (xs ! r)))"
  by (auto simp: check_cause_def getExceptionEntry_eq split: option.splits)

lemma check_cause_AssertionFailed:
  "check_cause xs cs = Some AssertionFailed \<longleftrightarrow>
     (\<exists>r. cs = Some r \<and> r < length xs \<and>
          (\<not> ex_used (xs ! r) \<or> ex_cause (xs ! r) \<or> ex_thrown (xs ! r)))"
  by (auto simp: check_cause_def getExceptionEntry_eq split: option.splits)

lemma mark_cause_eq:
  "mark_cause xs cs =
     (case cs of None \<Rightarrow> xs
      | Some r \<Rightarrow> if r < length xs then xs[r := (xs ! r)\<lparr>ex_cause := True\<rparr>] else xs)"
  by (simp add: mark_cause_def getExceptionEntry_eq split: option.splits)

lemma length_mark_cause [simp]: "length (mark_cause xs cs) = length xs"
  by (simp add: mark_cause_eq split: option.splits)

lemma length_fill_exception [simp]: "length (fill_exception xs i c cs out) = length xs"
  by (simp add: fill_exception_def)

lemma exAlloc_scan:
  assumes "exAlloc s c cs out = Inr (h, s')"
  shows "allocExceptionEntry_scan (exceptionList s) 0 = Some h"
  using assms
  by (auto simp: exAlloc_def allocExceptionEntry_def split: option.splits)

lemma exAlloc_Inr:
  assumes "exAlloc s c cs out = Inr (h, s')"
  shows "h < length (exceptionList s)" and "\<not> ex_used (exceptionList s ! h)"
    and "\<forall>j < h. ex_used (exceptionList s ! j)"
    and "check_cause (exceptionList s) cs = None"
    and "envList s' = envList s" and "ptrs s' = ptrs s"
    and "length (exceptionList s') = length (exceptionList s)"
    and "exceptionList s' ! h = (exceptionList s ! h)
           \<lparr>exception := \<lparr>code = c,
               msg = vsnprintf (msg (exception (exceptionList s ! h))) MAX_MSG_LEN out,
               cause = cs\<rparr>,
            ex_used := True, ex_cause := False\<rparr>"
    and "\<forall>j. j < length (exceptionList s) \<and> j \<noteq> h \<longrightarrow>
           exceptionList s' ! j =
             (if cs = Some j then (exceptionList s ! j)\<lparr>ex_cause := True\<rparr> else exceptionList s ! j)"
proof -
  let ?xs = "exceptionList s"
  from assms show cc: "check_cause ?xs cs = None"
    by (auto simp: exAlloc_def split: option.splits)
  from assms cc have sc: "allocExceptionEntry_scan ?xs 0 = Some h"
    by (auto simp: exAlloc_def allocExceptionEntry_def split: option.splits)
  from allocExceptionEntry_scan_Some[OF sc]
  show h: "h < length ?xs" and nu: "\<not> ex_used (?xs ! h)" and "\<forall>j < h. ex_used (?xs ! j)"
    by auto
  from assms cc sc
  have s': "s' = s\<lparr>exceptionList :=
      fill_exception (mark_cause (?xs[h := (?xs ! h)\<lparr>ex_cause := False, ex_used := True\<rparr>]) cs) h c cs out\<rparr>"
    by (auto simp: exAlloc_def allocExceptionEntry_def)
  then show "envList s' = envList s" "ptrs s' = ptrs s" "length (exceptionList s') = length ?xs"
    by simp_all
  from cc nu have ne: "cs \<noteq> Some h" by (auto simp: check_cause_None)
  from s' h ne show "exceptionList s' ! h = (?xs ! h)
           \<lparr>exception := \<lparr>code = c, msg = vsnprintf (msg (exception (?xs ! h))) MAX_MSG_LEN out,
               cause = cs\<rparr>, ex_used := True, ex_cause := False\<rparr>"
    by (auto simp: fill_exception_def mark_cause_eq nth_list_update split: option.splits)
  from s' h show "\<forall>j. j < length ?xs \<and> j \<noteq> h \<longrightarrow>
           exceptionList s' ! j = (if cs = Some j then (?xs ! j)\<lparr>ex_cause := True\<rparr> else ?xs ! j)"
    by (auto simp: fill_exception_def mark_cause_eq nth_list_update split: option.splits)
qed

lemma exThrow_Inr:
  assumes "exThrow s t c cs out = Inr (l, s')"
  shows "\<exists>h. allocExceptionEntry_scan (exceptionList s) 0 = Some h
      \<and> h < length (exceptionList s) \<and> \<not> ex_used (exceptionList s ! h)
      \<and> (\<forall>j < h. ex_used (exceptionList s ! j))
      \<and> exceptionList s' ! h = (exceptionList s ! h)
           \<lparr>exception := \<lparr>code = c,
               msg = vsnprintf (msg (exception (exceptionList s ! h))) MAX_MSG_LEN out,
               cause = cs\<rparr>,
            ex_used := True, ex_thrown := True, ex_cause := False, ex_thread := t\<rparr>
      \<and> (\<forall>j. j < length (exceptionList s) \<and> j \<noteq> h \<longrightarrow>
           exceptionList s' ! j =
             (if cs = Some j then (exceptionList s ! j)\<lparr>ex_cause := True\<rparr> else exceptionList s ! j))"
    and "check_cause (exceptionList s) cs = None"
    and "getLastEnvEntry (envList s) t = Some l"
    and "envList s' = envList s" and "ptrs s' = ptrs s"
    and "length (exceptionList s') = length (exceptionList s)"
proof -
  let ?xs = "exceptionList s"
  from assms show cc: "check_cause ?xs cs = None"
    by (auto simp: exThrow_def split: option.splits)
  from assms cc obtain h where sc: "allocExceptionEntry_scan ?xs 0 = Some h"
    by (auto simp: exThrow_def allocExceptionEntry_def split: option.splits)
  from allocExceptionEntry_scan_Some[OF sc]
  have h: "h < length ?xs" and nu: "\<not> ex_used (?xs ! h)" and fst: "\<forall>j < h. ex_used (?xs ! j)"
    by auto
  from assms cc sc show l: "getLastEnvEntry (envList s) t = Some l"
    by (auto simp: exThrow_def allocExceptionEntry_def Let_def split: option.splits)
  from assms cc sc
  have s': "s' = s\<lparr>exceptionList :=
      fill_exception (mark_cause ((?xs[h := (?xs ! h)\<lparr>ex_cause := False, ex_used := True\<rparr>])
        [h := ((?xs[h := (?xs ! h)\<lparr>ex_cause := False, ex_used := True\<rparr>]) ! h)
               \<lparr>ex_thrown := True, ex_thread := t\<rparr>]) cs) h c cs out\<rparr>"
    by (auto simp: exThrow_def allocExceptionEntry_def Let_def split: option.splits)
  then show "envList s' = envList s" "ptrs s' = ptrs s" "length (exceptionList s') = length ?xs"
    by simp_all
  from cc nu have ne: "cs \<noteq> Some h" by (auto simp: check_cause_None)
  from s' h ne have 1: "exceptionList s' ! h = (?xs ! h)
           \<lparr>exception := \<lparr>code = c, msg = vsnprintf (msg (exception (?xs ! h))) MAX_MSG_LEN out,
               cause = cs\<rparr>,
            ex_used := True, ex_thrown := True, ex_cause := False, ex_thread := t\<rparr>"
    by (auto simp: fill_exception_def mark_cause_eq nth_list_update split: option.splits)
  from s' h have 2: "\<forall>j. j < length ?xs \<and> j \<noteq> h \<longrightarrow>
           exceptionList s' ! j = (if cs = Some j then (?xs ! j)\<lparr>ex_cause := True\<rparr> else ?xs ! j)"
    by (auto simp: fill_exception_def mark_cause_eq nth_list_update split: option.splits)
  from sc h nu fst 1 2 show "\<exists>h. allocExceptionEntry_scan (exceptionList s) 0 = Some h
      \<and> h < length (exceptionList s) \<and> \<not> ex_used (exceptionList s ! h)
      \<and> (\<forall>j < h. ex_used (exceptionList s ! j))
      \<and> exceptionList s' ! h = (exceptionList s ! h)
           \<lparr>exception := \<lparr>code = c,
               msg = vsnprintf (msg (exception (exceptionList s ! h))) MAX_MSG_LEN out,
               cause = cs\<rparr>,
            ex_used := True, ex_thrown := True, ex_cause := False, ex_thread := t\<rparr>
      \<and> (\<forall>j. j < length (exceptionList s) \<and> j \<noteq> h \<longrightarrow>
           exceptionList s' ! j =
             (if cs = Some j then (exceptionList s ! j)\<lparr>ex_cause := True\<rparr> else exceptionList s ! j))"
    by blast
qed

lemma exRepeat_Inr:
  assumes "exRepeat s t e = Inr (l, s')"
  shows "\<exists>h. e = Some h \<and> h < length (exceptionList s) \<and> ex_used (exceptionList s ! h)
      \<and> \<not> ex_thrown (exceptionList s ! h)
      \<and> s' = s\<lparr>exceptionList := (exceptionList s)
                 [h := (exceptionList s ! h)\<lparr>ex_thrown := True, ex_thread := t\<rparr>]\<rparr>"
    and "getLastEnvEntry (envList s) t = Some l"
  using assms
  by (auto simp: exRepeat_def getExceptionEntry_eq Let_def split: option.splits if_splits)

lemma popCallingEnv_Inr:
  assumes "popCallingEnv s t e = Inr s'"
  shows "\<exists>l. getLastEnvEntry (envList s) t = Some l \<and>
           envList s' = (envList s)[l := (envList s ! l)\<lparr>env_used := False\<rparr>]"
    and "delivered s t = None \<Longrightarrow> exceptionList s' = exceptionList s \<and> ptrs s' = ptrs s"
    and "\<And>i. delivered s t = Some i \<Longrightarrow>
           exceptionList s' = (exceptionList s)[i := (exceptionList s ! i)\<lparr>ex_thrown := False\<rparr>] \<and>
           (\<exists>v. e = Some v \<and> ptrs s' = (ptrs s)(v := Some i))"
  using assms by (auto simp: popCallingEnv_unfold split: option.splits)


lemma release_fields:
  assumes "i < length xs"
  shows "ex_thrown (release A xs ! i) = ex_thrown (xs ! i)"
    and "ex_cause (release A xs ! i) = ex_cause (xs ! i)"
    and "ex_thread (release A xs ! i) = ex_thread (xs ! i)"
    and "exception (release A xs ! i) = exception (xs ! i)"
    and "ex_used (release A xs ! i) = (ex_used (xs ! i) \<and> i \<notin> A)"
  using assms by (simp_all add: nth_release)

lemma exAlloc_fields:
  assumes "exAlloc s c cs out = Inr (h, s')" and "j < length (exceptionList s)"
  shows "ex_used (exceptionList s' ! j) = (ex_used (exceptionList s ! j) \<or> j = h)"
    and "ex_thrown (exceptionList s' ! j) = ex_thrown (exceptionList s ! j)"
    and "ex_thread (exceptionList s' ! j) = ex_thread (exceptionList s ! j)"
    and "ex_cause (exceptionList s' ! j) = (j \<noteq> h \<and> (ex_cause (exceptionList s ! j) \<or> cs = Some j))"
    and "cause (exception (exceptionList s' ! j)) =
           (if j = h then cs else cause (exception (exceptionList s ! j)))"
    and "j \<noteq> h \<Longrightarrow> exception (exceptionList s' ! j) = exception (exceptionList s ! j)"
    and "msg (exception (exceptionList s' ! j)) =
           (if j = h then vsnprintf (msg (exception (exceptionList s ! h))) MAX_MSG_LEN out
            else msg (exception (exceptionList s ! j)))"
proof -
  note a = exAlloc_Inr[OF assms(1)]
  have e: "exceptionList s' ! j =
      (if j = h then (exceptionList s ! h)
           \<lparr>exception := \<lparr>code = c,
               msg = vsnprintf (msg (exception (exceptionList s ! h))) MAX_MSG_LEN out,
               cause = cs\<rparr>,
            ex_used := True, ex_cause := False\<rparr>
       else if cs = Some j then (exceptionList s ! j)\<lparr>ex_cause := True\<rparr>
       else exceptionList s ! j)"
    using a(8) a(9) assms(2) by simp
  show "ex_used (exceptionList s' ! j) = (ex_used (exceptionList s ! j) \<or> j = h)"
    and "ex_thrown (exceptionList s' ! j) = ex_thrown (exceptionList s ! j)"
    and "ex_thread (exceptionList s' ! j) = ex_thread (exceptionList s ! j)"
    and "ex_cause (exceptionList s' ! j) = (j \<noteq> h \<and> (ex_cause (exceptionList s ! j) \<or> cs = Some j))"
    and "cause (exception (exceptionList s' ! j)) =
           (if j = h then cs else cause (exception (exceptionList s ! j)))"
    and "j \<noteq> h \<Longrightarrow> exception (exceptionList s' ! j) = exception (exceptionList s ! j)"
    and "msg (exception (exceptionList s' ! j)) =
           (if j = h then vsnprintf (msg (exception (exceptionList s ! h))) MAX_MSG_LEN out
            else msg (exception (exceptionList s ! j)))"
    by (simp_all add: e)
qed

lemma exThrow_fields:
  assumes "exThrow s t c cs out = Inr (l, s')"
    and "allocExceptionEntry_scan (exceptionList s) 0 = Some h"
    and "j < length (exceptionList s)"
  shows "ex_used (exceptionList s' ! j) = (ex_used (exceptionList s ! j) \<or> j = h)"
    and "ex_thrown (exceptionList s' ! j) = (ex_thrown (exceptionList s ! j) \<or> j = h)"
    and "ex_thread (exceptionList s' ! j) = (if j = h then t else ex_thread (exceptionList s ! j))"
    and "ex_cause (exceptionList s' ! j) = (j \<noteq> h \<and> (ex_cause (exceptionList s ! j) \<or> cs = Some j))"
    and "cause (exception (exceptionList s' ! j)) =
           (if j = h then cs else cause (exception (exceptionList s ! j)))"
    and "j \<noteq> h \<Longrightarrow> exception (exceptionList s' ! j) = exception (exceptionList s ! j)"
    and "msg (exception (exceptionList s' ! j)) =
           (if j = h then vsnprintf (msg (exception (exceptionList s ! h))) MAX_MSG_LEN out
            else msg (exception (exceptionList s ! j)))"
proof -
  from exThrow_Inr(1)[OF assms(1)] assms(2)
  have a: "exceptionList s' ! h = (exceptionList s ! h)
           \<lparr>exception := \<lparr>code = c,
               msg = vsnprintf (msg (exception (exceptionList s ! h))) MAX_MSG_LEN out,
               cause = cs\<rparr>,
            ex_used := True, ex_thrown := True, ex_cause := False, ex_thread := t\<rparr>"
    and b: "\<forall>j. j < length (exceptionList s) \<and> j \<noteq> h \<longrightarrow>
           exceptionList s' ! j =
             (if cs = Some j then (exceptionList s ! j)\<lparr>ex_cause := True\<rparr> else exceptionList s ! j)"
    by auto
  have e: "exceptionList s' ! j =
      (if j = h then (exceptionList s ! h)
           \<lparr>exception := \<lparr>code = c,
               msg = vsnprintf (msg (exception (exceptionList s ! h))) MAX_MSG_LEN out,
               cause = cs\<rparr>,
            ex_used := True, ex_thrown := True, ex_cause := False, ex_thread := t\<rparr>
       else if cs = Some j then (exceptionList s ! j)\<lparr>ex_cause := True\<rparr>
       else exceptionList s ! j)"
    using a b assms(3) by simp
  show "ex_used (exceptionList s' ! j) = (ex_used (exceptionList s ! j) \<or> j = h)"
    and "ex_thrown (exceptionList s' ! j) = (ex_thrown (exceptionList s ! j) \<or> j = h)"
    and "ex_thread (exceptionList s' ! j) = (if j = h then t else ex_thread (exceptionList s ! j))"
    and "ex_cause (exceptionList s' ! j) = (j \<noteq> h \<and> (ex_cause (exceptionList s ! j) \<or> cs = Some j))"
    and "cause (exception (exceptionList s' ! j)) =
           (if j = h then cs else cause (exception (exceptionList s ! j)))"
    and "j \<noteq> h \<Longrightarrow> exception (exceptionList s' ! j) = exception (exceptionList s ! j)"
    and "msg (exception (exceptionList s' ! j)) =
           (if j = h then vsnprintf (msg (exception (exceptionList s ! h))) MAX_MSG_LEN out
            else msg (exception (exceptionList s ! j)))"
    by (simp_all add: e)
qed


lemma chain_cong_imp:
  assumes "chain xs e hs" and "length ys = length xs"
    and "\<forall>i < length xs. cause (exception (ys ! i)) = cause (exception (xs ! i))"
  shows "chain ys e hs"
  using assms
proof (induction rule: chain.induct)
  case (chain_end xs)
  show ?case by (rule chain.chain_end)
next
  case (chain_link h xs hs)
  have "h < length ys" using chain_link by simp
  moreover have "chain ys (cause (exception (ys ! h))) hs" using chain_link by simp
  ultimately show ?case by (rule chain.chain_link)
qed

lemma chain_cong:
  assumes "length ys = length xs"
    and "\<forall>i < length xs. cause (exception (ys ! i)) = cause (exception (xs ! i))"
  shows "chain ys e hs \<longleftrightarrow> chain xs e hs"
  using chain_cong_imp[of xs e hs ys] chain_cong_imp[of ys e hs xs] assms by auto

lemma ex_thrown_clear_id: "\<not> ex_thrown (r :: ExceptionEntry) \<Longrightarrow> r\<lparr>ex_thrown := False\<rparr> = r"
  by (cases r) simp

lemma popCallingEnv_fields:
  assumes "popCallingEnv s t e = Inr s'"
  shows "length (exceptionList s') = length (exceptionList s)"
    and "\<forall>i < length (exceptionList s).
           exception (exceptionList s' ! i) = exception (exceptionList s ! i) \<and>
           ex_used (exceptionList s' ! i) = ex_used (exceptionList s ! i) \<and>
           ex_cause (exceptionList s' ! i) = ex_cause (exceptionList s ! i) \<and>
           ex_thread (exceptionList s' ! i) = ex_thread (exceptionList s ! i) \<and>
           ex_thrown (exceptionList s' ! i) = (ex_thrown (exceptionList s ! i) \<and> delivered s t \<noteq> Some i)"
proof -
  show "length (exceptionList s') = length (exceptionList s)"
    using popCallingEnv_Inr(2,3)[OF assms] by (cases "delivered s t") auto
  show "\<forall>i < length (exceptionList s).
           exception (exceptionList s' ! i) = exception (exceptionList s ! i) \<and>
           ex_used (exceptionList s' ! i) = ex_used (exceptionList s ! i) \<and>
           ex_cause (exceptionList s' ! i) = ex_cause (exceptionList s ! i) \<and>
           ex_thread (exceptionList s' ! i) = ex_thread (exceptionList s ! i) \<and>
           ex_thrown (exceptionList s' ! i) = (ex_thrown (exceptionList s ! i) \<and> delivered s t \<noteq> Some i)"
  proof (cases "delivered s t")
    case None
    with popCallingEnv_Inr(2)[OF assms None] show ?thesis by simp
  next
    case (Some j)
    from popCallingEnv_Inr(3)[OF assms Some]
    have "exceptionList s' = (exceptionList s)[j := (exceptionList s ! j)\<lparr>ex_thrown := False\<rparr>]"
      by simp
    moreover from Some have "j < length (exceptionList s)"
      by (simp add: delivered_Some in_flight_def)
    ultimately show ?thesis using Some by (simp add: nth_list_update)
  qed
qed



section \<open>The concrete states are states of the code\<close>

lemma replicate16: "replicate 16 x = [x,x,x,x,x,x,x,x,x,x,x,x,x,x,x,x]"
  by (simp add: eval_nat_numeral)

lemmas demo_defs = demo_init_def demo_entered_def demo_nested_def demo_record_def
  demo_thrown_def demo_caught_def demo_repeated_def demo_recaught_def
  exInit_def ENV_LIST_SIZE_def EXCEPTION_LIST_SIZE_def zeroEnvEntry_def zeroExceptionEntry_def
  zeroException_def replicate16

lemma demo_enter: "pushCallingEnv demo_init 1 = Inr (0, demo_entered)"
  by (simp add: pushCallingEnv_def demo_defs)

lemma demo_enter_nested: "pushCallingEnv demo_entered 1 = Inr (1, demo_nested)"
  by (simp add: pushCallingEnv_def demo_defs)

lemma demo_throw: "exThrow demo_nested 1 exOther None ''No error.'' = Inr (1, demo_thrown)"
  by (simp add: exThrow_def check_cause_def allocExceptionEntry_def fill_exception_def
      mark_cause_def getExceptionEntry_def getLastEnvEntry_def demo_defs Let_def)

lemma demo_catch: "popCallingEnv demo_thrown 1 (Some 7) = Inr demo_caught"
  by (simp add: popCallingEnv_def getLastEnvEntry_def demo_defs Let_def)

lemma demo_repeat: "exRepeat demo_caught 1 (Some 0) = Inr (0, demo_repeated)"
  by (simp add: exRepeat_def getExceptionEntry_def getLastEnvEntry_def demo_defs Let_def)

lemma demo_catch_again: "popCallingEnv demo_repeated 1 (Some 7) = Inr demo_recaught"
  by (simp add: popCallingEnv_def getLastEnvEntry_def demo_defs Let_def)

lemmas demo_defs2 = demo_defs demo_wrapper_def demo_wrapped_def demo_freed_def

lemma demo_wrap: "exAlloc demo_caught exOther (Some 0) ''Wrapped.'' = Inr (1, demo_wrapped)"
  by (simp add: exAlloc_def check_cause_def allocExceptionEntry_def fill_exception_def
      mark_cause_def getExceptionEntry_def demo_defs2)

lemma demo_wrap_again:
  "exAlloc demo_wrapped exOther (Some 0) ''Again.'' = Inl (AssertionFailed, demo_wrapped)"
  by (simp add: exAlloc_def check_cause_def getExceptionEntry_def demo_defs2)

lemma demo_free: "exFree demo_wrapped (Some 1) = Some (Inr demo_freed)"
  by (simp add: exFree_def exFree_loop.simps getExceptionEntry_def demo_defs2)

lemma demo_free_cause:
  "exFree demo_wrapped (Some 0) = Some (Inl (AssertionFailed, demo_wrapped))"
  by (simp add: exFree_def getExceptionEntry_def demo_defs2)

lemma demo_steps:
  "step demo_init (Push 1) = Some demo_entered"
  "step demo_entered (Push 1) = Some demo_nested"
  "step demo_nested (Throw 1 exOther None ''No error.'') = Some demo_thrown"
  "step demo_thrown (Pop 1 (Some 7)) = Some demo_caught"
  "step demo_caught (Alloc exOther (Some 0) ''Wrapped.'') = Some demo_wrapped"
  using demo_enter demo_enter_nested demo_throw demo_catch demo_wrap by simp_all

lemma demo_wrapped_run:
  "run demo_init [Push 1, Push 1, Throw 1 exOther None ''No error.'', Pop 1 (Some 7),
                  Alloc exOther (Some 0) ''Wrapped.''] = Some demo_wrapped"
  by (simp only: run.simps demo_steps option.case)

lemma demo_wrapped_reachable: "reachable demo_wrapped"
  unfolding reachable_def using demo_wrapped_run[unfolded demo_init_def] by blast

lemma demo_caught_reachable: "reachable demo_caught"
proof -
  have "run demo_init [Push 1, Push 1, Throw 1 exOther None ''No error.'', Pop 1 (Some 7)]
          = Some demo_caught"
    by (simp only: run.simps demo_steps option.case)
  then show ?thesis unfolding reachable_def demo_init_def by blast
qed

section \<open>Messages\<close>

lemma vsnprintf_stored_length: "length (vsnprintf_stored MAX_MSG_LEN out) \<le> MAX_MSG_LEN"
  by (simp add: vsnprintf_stored_def MAX_MSG_LEN_def)

lemma vsnprintf_length:
  "length buf = MAX_MSG_LEN \<Longrightarrow> length (vsnprintf buf MAX_MSG_LEN out) = MAX_MSG_LEN"
  using vsnprintf_stored_length[of out] by (simp add: vsnprintf_def)

lemma vsnprintf_long:
  assumes "MAX_MSG_LEN \<le> length out" and "length buf = MAX_MSG_LEN"
  shows "vsnprintf buf MAX_MSG_LEN out = take (MAX_MSG_LEN - 1) out @ [NUL]"
  using assms by (simp add: vsnprintf_def vsnprintf_stored_def MAX_MSG_LEN_def)

lemma exAlloc_msg_sized:
  assumes "exAlloc s c cs out = Inr (h, s')" and "msg_sized (exceptionList s)"
  shows "msg_sized (exceptionList s')"
  unfolding msg_sized_def
proof (intro allI impI)
  fix j assume "j < length (exceptionList s')"
  with exAlloc_Inr(7)[OF assms(1)] have j: "j < length (exceptionList s)" by simp
  from exAlloc_Inr(1)[OF assms(1)] assms(2)
  have "length (msg (exception (exceptionList s ! h))) = MAX_MSG_LEN" by (simp add: msg_sized_def)
  from vsnprintf_length[OF this] exAlloc_fields(7)[OF assms(1) j] assms(2) j
  show "length (msg (exception (exceptionList s' ! j))) = MAX_MSG_LEN"
    by (simp add: msg_sized_def)
qed

lemma exThrow_msg_sized:
  assumes "exThrow s t c cs out = Inr (l, s')" and "msg_sized (exceptionList s)"
  shows "msg_sized (exceptionList s')"
  unfolding msg_sized_def
proof (intro allI impI)
  fix j assume "j < length (exceptionList s')"
  with exThrow_Inr(6)[OF assms(1)] have j: "j < length (exceptionList s)" by simp
  from exThrow_Inr(1)[OF assms(1)] obtain h
    where h: "allocExceptionEntry_scan (exceptionList s) 0 = Some h" "h < length (exceptionList s)"
    by blast
  with assms(2)
  have "length (msg (exception (exceptionList s ! h))) = MAX_MSG_LEN" by (simp add: msg_sized_def)
  from vsnprintf_length[OF this] exThrow_fields(7)[OF assms(1) h(1) j] assms(2) j
  show "length (msg (exception (exceptionList s' ! j))) = MAX_MSG_LEN"
    by (simp add: msg_sized_def)
qed

lemma demo_init_msg_sized: "msg_sized (exceptionList demo_init)"
  by (simp add: msg_sized_def demo_init_def exInit_exceptionList zeroExceptionEntry_def
      zeroException_def)

section \<open>Delivery\<close>


lemma demo_other_enter: "pushCallingEnv demo_caught 2 = Inr (1, demo_other_entered)"
  by (simp add: pushCallingEnv_def demo_defs demo_other_entered_def)





text \<open>
  \<^verbatim>\<open>exRepeat\<close> of a record followed at once by the delivery in the enclosing block of
  the same thread (the slot \<^verbatim>\<open>exRepeat\<close> jumps to is the most recent one, and it is the
  one the delivery releases) leaves the code, the message and the cause pointer of
  every record as they were, and with them every cause chain; the in-use flag and the
  is-a-cause flag of every record are unchanged too. When the thread had no other
  record in flight, the record delivered is the record repeated, and the pool differs
  from the one before \<^verbatim>\<open>exRepeat\<close> in the owning-thread field of that record only (the
  thrown flag was set and cleared again).
\<close>

lemma exRepeat_then_delivery:
  assumes "exRepeat s t e = Inr (l, s1)" and "popCallingEnv s1 t (Some v) = Inr s2"
  shows "\<exists>h. e = Some h \<and> h < length (exceptionList s) \<and> ex_used (exceptionList s ! h)
       \<and> \<not> ex_thrown (exceptionList s ! h)
       \<and> most_recent (envList s) t l
       \<and> envList s2 = (envList s)[l := (envList s ! l)\<lparr>env_used := False\<rparr>]
       \<and> length (exceptionList s2) = length (exceptionList s)
       \<and> (\<forall>i < length (exceptionList s).
             exception (exceptionList s2 ! i) = exception (exceptionList s ! i) \<and>
             ex_used (exceptionList s2 ! i) = ex_used (exceptionList s ! i) \<and>
             ex_cause (exceptionList s2 ! i) = ex_cause (exceptionList s ! i))
       \<and> (\<forall>e' hs. chain (exceptionList s2) e' hs \<longleftrightarrow> chain (exceptionList s) e' hs)
       \<and> ((\<forall>i. \<not> in_flight (exceptionList s) t i) \<longrightarrow>
             ptrs s2 = (ptrs s)(v := Some h) \<and>
             exceptionList s2 = (exceptionList s)[h := (exceptionList s ! h)\<lparr>ex_thread := t\<rparr>])"
proof -
  let ?xs = "exceptionList s"
  from exRepeat_Inr[OF assms(1)] obtain h where h: "e = Some h" "h < length ?xs"
    "ex_used (?xs ! h)" "\<not> ex_thrown (?xs ! h)"
    and s1: "s1 = s\<lparr>exceptionList := ?xs[h := (?xs ! h)\<lparr>ex_thrown := True, ex_thread := t\<rparr>]\<rparr>"
    and l: "getLastEnvEntry (envList s) t = Some l" by blast
  from s1 have e1: "envList s1 = envList s" and p1: "ptrs s1 = ptrs s"
    and x1: "exceptionList s1 = ?xs[h := (?xs ! h)\<lparr>ex_thrown := True, ex_thread := t\<rparr>]"
    by simp_all
  from popCallingEnv_Inr(1)[OF assms(2)] e1 l
  have env: "envList s2 = (envList s)[l := (envList s ! l)\<lparr>env_used := False\<rparr>]" by simp
  note f = popCallingEnv_fields[OF assms(2)]
  from f(1) x1 have len: "length (exceptionList s2) = length ?xs" by simp
  have same: "\<forall>i < length ?xs.
             exception (exceptionList s2 ! i) = exception (?xs ! i) \<and>
             ex_used (exceptionList s2 ! i) = ex_used (?xs ! i) \<and>
             ex_cause (exceptionList s2 ! i) = ex_cause (?xs ! i)"
  proof (intro allI impI)
    fix i assume i: "i < length ?xs"
    with x1 have "i < length (exceptionList s1)" by simp
    with f(2) have "exception (exceptionList s2 ! i) = exception (exceptionList s1 ! i) \<and>
           ex_used (exceptionList s2 ! i) = ex_used (exceptionList s1 ! i) \<and>
           ex_cause (exceptionList s2 ! i) = ex_cause (exceptionList s1 ! i)" by blast
    with x1 i show "exception (exceptionList s2 ! i) = exception (?xs ! i) \<and>
             ex_used (exceptionList s2 ! i) = ex_used (?xs ! i) \<and>
             ex_cause (exceptionList s2 ! i) = ex_cause (?xs ! i)"
      by (cases "i = h") (simp_all)
  qed
  from same have "\<forall>i < length ?xs.
      cause (exception (exceptionList s2 ! i)) = cause (exception (?xs ! i))" by simp
  from chain_cong[OF len this]
  have ch: "\<forall>e' hs. chain (exceptionList s2) e' hs \<longleftrightarrow> chain ?xs e' hs" by blast
  have id: "(\<forall>i. \<not> in_flight ?xs t i) \<longrightarrow>
             ptrs s2 = (ptrs s)(v := Some h) \<and>
             exceptionList s2 = ?xs[h := (?xs ! h)\<lparr>ex_thread := t\<rparr>]"
  proof
    assume nf: "\<forall>i. \<not> in_flight ?xs t i"
    have "in_flight (exceptionList s1) t h" using h x1 by (simp add: in_flight_def)
    moreover have "\<forall>j < h. \<not> in_flight (exceptionList s1) t j"
      using nf x1 by (auto simp: in_flight_def)
    ultimately have d: "delivered s1 t = Some h" by (simp add: delivered_Some)
    have "(?xs ! h)\<lparr>ex_thread := t, ex_thrown := False\<rparr> = (?xs ! h)\<lparr>ex_thread := t\<rparr>"
      using h(4) by (simp add: ex_thrown_clear_id)
    with popCallingEnv_Inr(3)[OF assms(2) d] p1 x1 h
    show "ptrs s2 = (ptrs s)(v := Some h) \<and>
             exceptionList s2 = ?xs[h := (?xs ! h)\<lparr>ex_thread := t\<rparr>]" by simp
  qed
  from getLastEnvEntry_Some[OF l] have mr: "most_recent (envList s) t l" .
  show ?thesis
    by (rule exI[of _ h]) (intro conjI h mr env len same ch id)
qed

text \<open>The handler of the nested block repeats the record it caught, with no call in between.\<close>

lemma demo_recaught_same:
  "exRepeat demo_caught 1 (Some 0) = Inr (0, demo_repeated)
   \<and> popCallingEnv demo_repeated 1 (Some 7) = Inr demo_recaught
   \<and> ptrs demo_recaught 7 = Some 0
   \<and> exception (exceptionList demo_recaught ! 0) = exception (exceptionList demo_caught ! 0)"
proof -
  have nf: "\<forall>i. \<not> in_flight (exceptionList demo_caught) 1 i"
    by (auto simp: in_flight_def demo_defs nth_Cons' split: if_splits)
  from exRepeat_then_delivery[OF demo_repeat demo_catch_again] nf
  have "ptrs demo_recaught = (ptrs demo_caught)(7 := Some 0)"
    and "\<forall>i < length (exceptionList demo_caught).
           exception (exceptionList demo_recaught ! i) = exception (exceptionList demo_caught ! i)"
    by auto
  moreover have "0 < length (exceptionList demo_caught)" by (simp add: demo_defs)
  ultimately show ?thesis using demo_repeat demo_catch_again by simp
qed

section \<open>The invariant of the environment registry\<close>

lemma finite_owned [simp]: "finite {i. owned es t i}"
  by (rule finite_subset[of _ "{..<length es}"]) (auto simp: owned_def)

lemma count_owned_card: "count_owned es t = card {i. owned es t i}"
  by (simp add: count_owned_def owned_def length_filter_conv_card)

lemma levels_of_index:
  "levels_of es t = map (\<lambda>i. env_level (es ! i))
     (filter (\<lambda>i. env_used (es ! i) \<and> env_thread (es ! i) = t) [0..<length es])"
proof -
  have "filter (\<lambda>e. env_used e \<and> env_thread e = t) es =
        filter (\<lambda>e. env_used e \<and> env_thread e = t) (map (nth es) [0..<length es])"
    by (simp add: map_nth)
  also have "\<dots> = map (nth es)
      (filter (\<lambda>i. env_used (es ! i) \<and> env_thread (es ! i) = t) [0..<length es])"
    by (simp add: filter_map comp_def)
  finally show ?thesis by (simp add: levels_of_def)
qed

lemma owned_list_set:
  "set (filter (\<lambda>i. env_used (es ! i) \<and> env_thread (es ! i) = t) [0..<length es]) = {i. owned es t i}"
  by (auto simp: owned_def)

lemma set_levels_of: "set (levels_of es t) = (\<lambda>i. env_level (es ! i)) ` {i. owned es t i}"
  by (simp only: levels_of_index set_map owned_list_set)

lemma distinct_levels_of:
  "distinct (levels_of es t) \<longleftrightarrow> inj_on (\<lambda>i. env_level (es ! i)) {i. owned es t i}"
  by (simp only: levels_of_index distinct_map owned_list_set) simp

lemma length_levels_of: "length (levels_of es t) = count_owned es t"
  by (simp add: levels_of_def count_owned_def)

lemma sort_upt_iff:
  "sort xs = [0..<length xs] \<longleftrightarrow> distinct xs \<and> set xs = {0..<length xs}"
proof
  assume a: "sort xs = [0..<length xs]"
  have "distinct (sort xs)" "set (sort xs) = {0..<length xs}" unfolding a by simp_all
  then show "distinct xs \<and> set xs = {0..<length xs}" by simp
next
  assume a: "distinct xs \<and> set xs = {0..<length xs}"
  show "sort xs = [0..<length xs]"
    by (rule sorted_distinct_set_unique) (use a in simp_all)
qed

lemma sort_levels_iff: "sort (levels_of es t) = [0..<count_owned es t] \<longleftrightarrow> stack_ok es t"
  using sort_upt_iff[of "levels_of es t"]
  by (simp add: length_levels_of set_levels_of distinct_levels_of stack_ok_def count_owned_card)

lemma env_inv_iff: "env_inv es \<longleftrightarrow> (\<forall>t. stack_ok es t)"
proof
  assume "env_inv es"
  then show "\<forall>t. stack_ok es t" by (simp add: env_inv_def sort_levels_iff)
next
  assume a: "\<forall>t. stack_ok es t"
  have "i = j" if "i < length es" "j < length es" "env_used (es ! i)" "env_used (es ! j)"
    "env_thread (es ! i) = env_thread (es ! j)" "env_level (es ! i) = env_level (es ! j)" for i j
  proof -
    from a have "inj_on (\<lambda>k. env_level (es ! k)) {k. owned es (env_thread (es ! i)) k}"
      by (simp add: stack_ok_def)
    moreover from that have "owned es (env_thread (es ! i)) i" "owned es (env_thread (es ! i)) j"
      by (simp_all add: owned_def)
    ultimately show ?thesis using that(6) by (auto dest: inj_onD)
  qed
  with a show "env_inv es" unfolding env_inv_def sort_levels_iff by blast
qed

lemma stack_ok_init: "stack_ok (replicate n zeroEnvEntry) t"
proof -
  have "{i. owned (replicate n zeroEnvEntry) t i} = {}"
    by (auto simp: owned_def zeroEnvEntry_def)
  then show ?thesis by (simp add: stack_ok_def)
qed

lemma stack_ok_push_same:
  assumes "stack_ok es t" and "u < length es" and "\<not> env_used (es ! u)"
  shows "stack_ok (es[u := (es ! u)\<lparr>env_used := True, env_level := count_owned es t, env_thread := t\<rparr>]) t"
proof -
  let ?es' = "es[u := (es ! u)\<lparr>env_used := True, env_level := count_owned es t, env_thread := t\<rparr>]"
  let ?A = "{i. owned es t i}"
  let ?n = "card ?A"
  from assms(3) have nu: "u \<notin> ?A" by (simp add: owned_def)
  have A': "{i. owned ?es' t i} = insert u ?A"
    using assms(2,3) by (auto simp: owned_def nth_list_update)
  have lv: "env_level (?es' ! i) = env_level (es ! i)" if "i \<in> ?A" for i
  proof -
    from that nu have "i \<noteq> u" by auto
    then show ?thesis by simp
  qed
  have lu: "env_level (?es' ! u) = ?n" using assms(2) by (simp add: count_owned_card)
  from assms(1) have inj: "inj_on (\<lambda>i. env_level (es ! i)) ?A"
    and img: "(\<lambda>i. env_level (es ! i)) ` ?A = {0..<?n}" by (simp_all add: stack_ok_def)
  have img': "(\<lambda>i. env_level (?es' ! i)) ` ?A = {0..<?n}"
    using img lv by (metis (no_types, lifting) image_cong)
  have inj': "inj_on (\<lambda>i. env_level (?es' ! i)) ?A"
    using inj lv by (simp add: inj_on_def)
  have "inj_on (\<lambda>i. env_level (?es' ! i)) (insert u ?A)"
    using inj' img' lu nu by (auto simp: inj_on_insert)
  moreover have "(\<lambda>i. env_level (?es' ! i)) ` insert u ?A = {0..<card (insert u ?A)}"
    using img' lu nu by (auto simp: atLeast0_lessThan_Suc)
  ultimately show ?thesis unfolding stack_ok_def A' by simp
qed

lemma stack_ok_other:
  assumes "stack_ok es t'" and "u < length es"
    and "\<not> owned es t' u" and "\<not> (env_used x \<and> env_thread x = t')"
  shows "stack_ok (es[u := x]) t'"
proof -
  have A': "{i. owned (es[u := x]) t' i} = {i. owned es t' i}"
    using assms(2,3,4) by (auto simp: owned_def nth_list_update)
  have "env_level (es[u := x] ! i) = env_level (es ! i)" if "i \<in> {i. owned es t' i}" for i
  proof -
    from that assms(3) have "i \<noteq> u" by auto
    then show ?thesis by simp
  qed
  then have "inj_on (\<lambda>i. env_level (es[u := x] ! i)) {i. owned es t' i} =
             inj_on (\<lambda>i. env_level (es ! i)) {i. owned es t' i}"
    and "(\<lambda>i. env_level (es[u := x] ! i)) ` {i. owned es t' i} =
         (\<lambda>i. env_level (es ! i)) ` {i. owned es t' i}"
    by (auto simp: inj_on_def image_def)
  with assms(1) show ?thesis unfolding stack_ok_def A' by simp
qed

lemma most_recent_top:
  assumes "stack_ok es t" and "most_recent es t l"
  shows "Suc (env_level (es ! l)) = card {i. owned es t i}"
proof -
  let ?A = "{i. owned es t i}"
  from assms(1) have img: "(\<lambda>i. env_level (es ! i)) ` ?A = {0..<card ?A}"
    by (simp add: stack_ok_def)
  from assms(2) have l: "l \<in> ?A" and mx: "\<forall>j \<in> ?A. env_level (es ! j) \<le> env_level (es ! l)"
    by (simp_all add: most_recent_def)
  from l img have lt: "env_level (es ! l) < card ?A" by auto
  then have "card ?A - 1 \<in> (\<lambda>i. env_level (es ! i)) ` ?A" unfolding img by simp
  then obtain j where "j \<in> ?A" "env_level (es ! j) = card ?A - 1" by auto
  with mx have "card ?A - 1 \<le> env_level (es ! l)" by auto
  with lt show ?thesis by simp
qed

lemma stack_ok_pop_same:
  assumes "stack_ok es t" and "most_recent es t l"
  shows "stack_ok (es[l := (es ! l)\<lparr>env_used := False\<rparr>]) t"
proof -
  let ?es' = "es[l := (es ! l)\<lparr>env_used := False\<rparr>]"
  let ?A = "{i. owned es t i}"
  from assms(2) have l: "l \<in> ?A" "l < length es" by (simp_all add: most_recent_def owned_def)
  have A': "{i. owned ?es' t i} = ?A - {l}"
    using l(2) by (auto simp: owned_def nth_list_update)
  have lv: "env_level (?es' ! i) = env_level (es ! i)" if "i \<in> ?A - {l}" for i
  proof -
    from that have "i \<noteq> l" by auto
    then show ?thesis by simp
  qed
  from assms(1) have inj: "inj_on (\<lambda>i. env_level (es ! i)) ?A"
    and img: "(\<lambda>i. env_level (es ! i)) ` ?A = {0..<card ?A}" by (simp_all add: stack_ok_def)
  from most_recent_top[OF assms] have top: "Suc (env_level (es ! l)) = card ?A" .
  have "(\<lambda>i. env_level (es ! i)) ` (?A - {l}) = {0..<card ?A} - {env_level (es ! l)}"
    using inj_on_image_set_diff[OF inj, of ?A "{l}"] l(1) img by simp
  also have "\<dots> = {0..<card ?A - 1}" using top by auto
  also have "card ?A - 1 = card (?A - {l})" using l(1) by simp
  finally have img1: "(\<lambda>i. env_level (es ! i)) ` (?A - {l}) = {0..<card (?A - {l})}" .
  have inj1: "inj_on (\<lambda>i. env_level (es ! i)) (?A - {l})"
    using inj by (rule inj_on_diff)
  have "inj_on (\<lambda>i. env_level (?es' ! i)) (?A - {l})"
    using inj1 lv by (simp add: inj_on_def)
  moreover have "(\<lambda>i. env_level (?es' ! i)) ` (?A - {l}) = {0..<card (?A - {l})}"
    using img1 lv by (metis (no_types, lifting) image_cong)
  ultimately show ?thesis unfolding stack_ok_def A' by simp
qed

lemma env_inv_push:
  assumes "env_inv (envList s)" and "pushCallingEnv s t = Inr (u, s')"
  shows "env_inv (envList s')"
  unfolding env_inv_iff
proof
  fix t'
  note p = pushCallingEnv_Inr[OF assms(2)]
  from assms(1) have ok: "stack_ok (envList s) t'" by (simp add: env_inv_iff)
  show "stack_ok (envList s') t'"
  proof (cases "t' = t")
    case True
    with stack_ok_push_same[OF _ p(1) p(2), of t] ok p(4) show ?thesis by simp
  next
    case False
    from p(2) have "\<not> owned (envList s) t' u" by (simp add: owned_def)
    from stack_ok_other[OF ok p(1) this, of "(envList s ! u)
           \<lparr>env_used := True, env_level := count_owned (envList s) t, env_thread := t\<rparr>"] False p(4)
    show ?thesis by simp
  qed
qed

lemma env_inv_pop:
  assumes "env_inv (envList s)" and "popCallingEnv s t e = Inr s'"
  shows "env_inv (envList s')"
  unfolding env_inv_iff
proof
  fix t'
  from popCallingEnv_Inr(1)[OF assms(2)] obtain l where l: "getLastEnvEntry (envList s) t = Some l"
    "envList s' = (envList s)[l := (envList s ! l)\<lparr>env_used := False\<rparr>]" by blast
  from getLastEnvEntry_Some[OF l(1)] have mr: "most_recent (envList s) t l" .
  from assms(1) have ok: "stack_ok (envList s) t'" by (simp add: env_inv_iff)
  show "stack_ok (envList s') t'"
  proof (cases "t' = t")
    case True
    with stack_ok_pop_same[OF _ mr] ok l(2) show ?thesis by simp
  next
    case False
    from mr have "l < length (envList s)" "\<not> owned (envList s) t' l"
      using False by (auto simp: most_recent_def owned_def)
    from stack_ok_other[OF ok this, of "(envList s ! l)\<lparr>env_used := False\<rparr>"] l(2)
    show ?thesis by simp
  qed
qed

section \<open>Reachable states\<close>

lemma run_append:
  "run s (cs @ ds) = (case run s cs of None \<Rightarrow> None | Some s' \<Rightarrow> run s' ds)"
  by (induction cs arbitrary: s) (auto split: option.splits)

lemma run_invariant:
  assumes "run s0 cs = Some s" and "P s0"
    and "\<And>s c s'. P s \<Longrightarrow> step s c = Some s' \<Longrightarrow> P s'"
  shows "P s"
  using assms(1,2)
proof (induction cs arbitrary: s0)
  case Nil
  then show ?case by simp
next
  case (Cons c cs)
  from Cons.prems(1) obtain s1 where s1: "step s0 c = Some s1" "run s1 cs = Some s"
    by (auto split: option.splits)
  from assms(3)[OF Cons.prems(2) s1(1)] Cons.IH[OF s1(2)] show ?case by simp
qed

lemma reachable_init: "reachable (exInit vars)"
  unfolding reachable_def by (rule exI[of _ vars], rule exI[of _ "[]"]) simp

lemma reachable_step: "reachable s \<Longrightarrow> step s c = Some s' \<Longrightarrow> reachable s'"
  unfolding reachable_def
proof clarify
  fix vars cs assume "run (exInit vars) cs = Some s" "step s c = Some s'"
  then have "run (exInit vars) (cs @ [c]) = Some s'" by (simp add: run_append)
  then show "\<exists>vars cs. run (exInit vars) cs = Some s'" by blast
qed

lemma reachable_run: "reachable s \<Longrightarrow> run s cs = Some s' \<Longrightarrow> reachable s'"
  by (rule run_invariant[where P = reachable]) (auto intro: reachable_step)

lemma reachable_induct [consumes 1, case_names init step]:
  assumes "reachable s" and "\<And>vars. P (exInit vars)"
    and "\<And>s c s'. reachable s \<Longrightarrow> P s \<Longrightarrow> step s c = Some s' \<Longrightarrow> P s'"
  shows "P s"
proof -
  from assms(1) obtain vars cs where r: "run (exInit vars) cs = Some s"
    by (auto simp: reachable_def)
  have "reachable s \<and> P s"
    by (rule run_invariant[OF r, where P = "\<lambda>s. reachable s \<and> P s"])
       (auto intro: reachable_init reachable_step assms(2,3))
  then show ?thesis by simp
qed

lemma step_cases:
  assumes "step s c = Some s'"
  shows "(\<exists>t u. c = Push t \<and> pushCallingEnv s t = Inr (u, s'))
       \<or> (\<exists>t e. c = Pop t e \<and> popCallingEnv s t e = Inr s')
       \<or> (\<exists>k cs out h. c = Alloc k cs out \<and> exAlloc s k cs out = Inr (h, s'))
       \<or> (\<exists>t k cs out l. c = Throw t k cs out \<and> exThrow s t k cs out = Inr (l, s'))
       \<or> (\<exists>t e l. c = Repeat t e \<and> exRepeat s t e = Inr (l, s'))
       \<or> (\<exists>e. c = Free e \<and> exFree s e = Some (Inr s'))"
  using assms by (cases c) (auto split: sum.splits option.splits)

lemma step_envList:
  assumes "step s c = Some s'" and "\<forall>t. c \<noteq> Push t" and "\<forall>t e. c \<noteq> Pop t e"
  shows "envList s' = envList s"
proof -
  from step_cases[OF assms(1)] assms(2,3)
  consider (alloc) k cs out h where "exAlloc s k cs out = Inr (h, s')"
    | (throw) t k cs out l where "exThrow s t k cs out = Inr (l, s')"
    | (repeat) t e l where "exRepeat s t e = Inr (l, s')"
    | (free) e where "exFree s e = Some (Inr s')"
    by blast
  then show ?thesis
  proof cases
    case alloc from exAlloc_Inr(5)[OF this] show ?thesis .
  next
    case throw from exThrow_Inr(4)[OF this] show ?thesis .
  next
    case repeat from exRepeat_Inr(1)[OF this] show ?thesis by auto
  next
    case free from exFree_Inr[OF this] show ?thesis by auto
  qed
qed

lemma env_inv_step:
  assumes "env_inv (envList s)" and "step s c = Some s'"
  shows "env_inv (envList s')"
proof -
  from step_cases[OF assms(2)]
  consider (push) t u where "pushCallingEnv s t = Inr (u, s')"
    | (pop) t e where "popCallingEnv s t e = Inr s'"
    | (other) "\<forall>t. c \<noteq> Push t" "\<forall>t e. c \<noteq> Pop t e"
    by auto
  then show ?thesis
  proof cases
    case push from env_inv_push[OF assms(1) this] show ?thesis .
  next
    case pop from env_inv_pop[OF assms(1) this] show ?thesis .
  next
    case other from step_envList[OF assms(2) other] assms(1) show ?thesis by simp
  qed
qed

lemma env_inv_init: "env_inv (envList (exInit vars))"
  by (simp add: env_inv_iff exInit_def stack_ok_init)

lemma env_inv_reachable_aux: "reachable s \<Longrightarrow> env_inv (envList s)"
  by (induction rule: reachable_induct) (auto intro: env_inv_init env_inv_step)

text \<open>
  Claim C6: at most one slot per (thread, level) pair is in use, and the levels of the
  slots in use of any one thread are 0, 1, 2, ... without gap or repetition
  (\<open>env_inv\<close>). This holds initially, is preserved by every reserve (\<^verbatim>\<open>pushCallingEnv\<close>)
  and every release (\<^verbatim>\<open>popCallingEnv\<close>, which releases the slot of the greatest level of
  the calling thread), and so holds in every reachable state.
\<close>

theorem env_inv_reachable:
  "env_inv (envList (exInit vars))
   \<and> (\<forall>s t u s'. env_inv (envList s) \<and> pushCallingEnv s t = Inr (u, s') \<longrightarrow> env_inv (envList s'))
   \<and> (\<forall>s t e s'. env_inv (envList s) \<and> popCallingEnv s t e = Inr s' \<longrightarrow> env_inv (envList s'))
   \<and> (\<forall>s. reachable s \<longrightarrow> env_inv (envList s))"
  using env_inv_init env_inv_push env_inv_pop env_inv_reachable_aux by blast

lemma demo_nested_run: "run (exInit (\<lambda>v. None)) [Push 1, Push 1] = Some demo_nested"
  using demo_enter demo_enter_nested by (simp add: demo_init_def)

lemma demo_nested_reachable: "reachable demo_nested"
  unfolding reachable_def using demo_nested_run by blast

theorem env_inv_reachable_witness: "reachable demo_nested \<and> env_inv (envList demo_nested)"
  using env_inv_reachable[of "\<lambda>v. None"] demo_nested_reachable by blast

section \<open>The target of a throw\<close>

lemma owned_push_same:
  assumes "pushCallingEnv s t = Inr (u, s')"
  shows "owned (envList s') t i \<longleftrightarrow> i = u \<or> owned (envList s) t i"
    and "i \<noteq> u \<Longrightarrow> envList s' ! i = envList s ! i"
    and "env_level (envList s' ! u) = count_owned (envList s) t"
    and "\<not> owned (envList s) t u"
  using pushCallingEnv_Inr[OF assms] by (auto simp: owned_def nth_list_update)

lemma top_push:
  assumes "pushCallingEnv s t = Inr (u, s')"
  shows "top (envList s') t u"
proof -
  note o = owned_push_same[OF assms]
  have "{i. owned (envList s') t i} = insert u {i. owned (envList s) t i}"
    using o(1) by auto
  then have "card {i. owned (envList s') t i} = Suc (card {i. owned (envList s) t i})"
    using o(4) by simp
  with o(1,3) show ?thesis by (simp add: top_def count_owned_card)
qed

lemma owned_other:
  assumes "step s c = Some s'" and "c \<noteq> Push t" and "\<forall>e. c \<noteq> Pop t e"
  shows "owned (envList s') t i \<longleftrightarrow> owned (envList s) t i"
    and "owned (envList s) t i \<Longrightarrow> env_level (envList s' ! i) = env_level (envList s ! i)"
proof -
  from step_cases[OF assms(1)] assms(2,3)
  consider (push) t' u where "t' \<noteq> t" "pushCallingEnv s t' = Inr (u, s')"
    | (pop) t' e where "t' \<noteq> t" "popCallingEnv s t' e = Inr s'"
    | (other) "\<forall>t. c \<noteq> Push t" "\<forall>t e. c \<noteq> Pop t e"
    by auto
  then have "(owned (envList s') t i \<longleftrightarrow> owned (envList s) t i) \<and>
     (owned (envList s) t i \<longrightarrow> env_level (envList s' ! i) = env_level (envList s ! i))"
  proof cases
    case push
    from pushCallingEnv_Inr[OF push(2)] push(1) show ?thesis
      by (auto simp: owned_def nth_list_update)
  next
    case pop
    from popCallingEnv_Inr(1)[OF pop(2)] obtain l where l: "getLastEnvEntry (envList s) t' = Some l"
      "envList s' = (envList s)[l := (envList s ! l)\<lparr>env_used := False\<rparr>]" by blast
    from getLastEnvEntry_Some[OF l(1)] have "owned (envList s) t' l" by (simp add: most_recent_def)
    with l(2) pop(1) show ?thesis by (auto simp: owned_def nth_list_update)
  next
    case other
    from step_envList[OF assms(1) other] show ?thesis by simp
  qed
  then show "owned (envList s') t i \<longleftrightarrow> owned (envList s) t i"
    and "owned (envList s) t i \<Longrightarrow> env_level (envList s' ! i) = env_level (envList s ! i)"
    by simp_all
qed

lemma top_other:
  assumes "step s c = Some s'" and "c \<noteq> Push t" and "\<forall>e. c \<noteq> Pop t e"
    and "top (envList s) t u"
  shows "top (envList s') t u"
proof -
  have "{i. owned (envList s') t i} = {i. owned (envList s) t i}"
    using owned_other(1)[OF assms(1-3)] by simp
  then have "count_owned (envList s') t = count_owned (envList s) t"
    by (simp add: count_owned_card)
  with assms(4) owned_other[OF assms(1-3), of u] show ?thesis by (simp add: top_def)
qed

lemma entered_top:
  assumes "run s0 cs = Some s" and "\<forall>e. Pop t e \<notin> set cs"
    and "ks0 \<noteq> [] \<longrightarrow> top (envList s0) t (last ks0)"
  shows "ks0 @ entered t s0 cs \<noteq> [] \<longrightarrow> top (envList s) t (last (ks0 @ entered t s0 cs))"
  using assms
proof (induction cs arbitrary: s0 ks0)
  case Nil
  then show ?case by simp
next
  case (Cons c cs)
  from Cons.prems(1) obtain s1 where s1: "step s0 c = Some s1" "run s1 cs = Some s"
    by (auto split: option.splits)
  from Cons.prems(2) have np: "\<forall>e. Pop t e \<notin> set cs" and nc: "\<forall>e. c \<noteq> Pop t e" by auto
  show ?case
  proof (cases "c = Push t")
    case True
    with s1(1) obtain u where u: "pushCallingEnv s0 t = Inr (u, s1)" by (auto split: sum.splits)
    with True s1(1) have e: "entered t s0 (c # cs) = u # entered t s1 cs" by simp
    have "(ks0 @ [u]) \<noteq> [] \<longrightarrow> top (envList s1) t (last (ks0 @ [u]))"
      using top_push[OF u] by simp
    from Cons.IH[OF s1(2) np this] e show ?thesis by simp
  next
    case False
    with s1(1) have e: "entered t s0 (c # cs) = entered t s1 cs" by simp
    have "ks0 \<noteq> [] \<longrightarrow> top (envList s1) t (last ks0)"
      using Cons.prems(3) top_other[OF s1(1) False nc] by blast
    from Cons.IH[OF s1(2) np this] e show ?thesis by simp
  qed
qed

lemma length_entered:
  "run s0 cs = Some s \<Longrightarrow> length (entered t s0 cs) = length (filter (\<lambda>c. c = Push t) cs)"
proof (induction cs arbitrary: s0)
  case Nil
  then show ?case by simp
next
  case (Cons c cs)
  from Cons.prems obtain s1 where s1: "step s0 c = Some s1" "run s1 cs = Some s"
    by (auto split: option.splits)
  from Cons.IH[OF s1(2)] s1(1) show ?case by (auto split: sum.splits)
qed

lemma top_most_recent:
  assumes "stack_ok es t" and "top es t u"
  shows "getLastEnvEntry es t = Some u"
    and "\<forall>j. owned es t j \<and> j \<noteq> u \<longrightarrow> env_level (es ! j) < env_level (es ! u)"
proof -
  from assms(1) have inj: "inj_on (\<lambda>i. env_level (es ! i)) {i. owned es t i}"
    and img: "(\<lambda>i. env_level (es ! i)) ` {i. owned es t i} = {0..<card {i. owned es t i}}"
    by (simp_all add: stack_ok_def)
  from assms(2) have u: "owned es t u" "Suc (env_level (es ! u)) = card {i. owned es t i}"
    by (simp_all add: top_def count_owned_card)
  show lt: "\<forall>j. owned es t j \<and> j \<noteq> u \<longrightarrow> env_level (es ! j) < env_level (es ! u)"
  proof (intro allI impI)
    fix j assume j: "owned es t j \<and> j \<noteq> u"
    then have "env_level (es ! j) \<in> {0..<card {i. owned es t i}}" using img by blast
    with u(2) have "env_level (es ! j) \<le> env_level (es ! u)" by simp
    moreover from inj j u(1) have "env_level (es ! j) \<noteq> env_level (es ! u)"
      by (auto dest: inj_onD)
    ultimately show "env_level (es ! j) < env_level (es ! u)" by simp
  qed
  from u(1) have "getLastEnvEntry es t \<noteq> None" by (auto simp: getLastEnvEntry_None)
  then obtain l where l: "getLastEnvEntry es t = Some l" by auto
  from getLastEnvEntry_Some[OF l] have "owned es t l"
    "\<forall>j. owned es t j \<longrightarrow> env_level (es ! j) \<le> env_level (es ! l)"
    by (simp_all add: most_recent_def)
  with lt u(1) have "l = u" by (metis not_le)
  with l show "getLastEnvEntry es t = Some u" by simp
qed

text \<open>
  Claim C1: let thread \<open>t\<close> enter protected blocks along a run from a reachable state,
  without leaving any (no \<^verbatim>\<open>popCallingEnv\<close> of \<open>t\<close>; other threads enter and leave blocks
  as they like, and every thread allocates, throws, repeats and frees). With \<open>n \<ge> 1\<close>
  entries, the slot \<^verbatim>\<open>getLastEnvEntry\<close> finds for \<open>t\<close> at the end is the one reserved by
  the \<open>n\<close>-th entry. It is in use and owned by \<open>t\<close>, every other slot in use of \<open>t\<close> has
  a smaller level, and \<^verbatim>\<open>exThrow\<close> on \<open>t\<close> jumps to it whenever it jumps. It does jump,
  with its record in flight on \<open>t\<close>, whenever the cause given passes the assertions (no
  cause, or a record in use that is neither a cause nor thrown) and the exception pool
  has a free record.
\<close>

theorem exThrow_targets_innermost:
  assumes "reachable s0" and "run s0 cs = Some s"
    and "\<forall>e. Pop t e \<notin> set cs" and "Push t \<in> set cs"
  shows "length (entered t s0 cs) = length (filter (\<lambda>c. c = Push t) cs)
       \<and> entered t s0 cs \<noteq> []
       \<and> getLastEnvEntry (envList s) t = Some (last (entered t s0 cs))
       \<and> owned (envList s) t (last (entered t s0 cs))
       \<and> (\<forall>j. owned (envList s) t j \<and> j \<noteq> last (entered t s0 cs) \<longrightarrow>
              env_level (envList s ! j) < env_level (envList s ! last (entered t s0 cs)))
       \<and> (\<forall>c k out l s'. exThrow s t c k out = Inr (l, s') \<longrightarrow> l = last (entered t s0 cs))
       \<and> (\<forall>c k out h. check_cause (exceptionList s) k = None \<and>
              allocExceptionEntry_scan (exceptionList s) 0 = Some h \<longrightarrow>
              (\<exists>s'. exThrow s t c k out = Inr (last (entered t s0 cs), s') \<and>
                    in_flight (exceptionList s') t h))"
proof -
  let ?ks = "entered t s0 cs"
  from length_entered[OF assms(2)] have len: "length ?ks = length (filter (\<lambda>c. c = Push t) cs)" .
  from assms(4) have "filter (\<lambda>c. c = Push t) cs \<noteq> []" by (auto simp: filter_empty_conv)
  with len have ne: "?ks \<noteq> []" by auto
  from entered_top[OF assms(2,3), of "[]"] ne have tp: "top (envList s) t (last ?ks)" by simp
  from reachable_run[OF assms(1,2)] have "env_inv (envList s)" by (rule env_inv_reachable_aux)
  then have ok: "stack_ok (envList s) t" by (simp add: env_inv_iff)
  note mr = top_most_recent[OF ok tp]
  from tp have ow: "owned (envList s) t (last ?ks)" by (simp add: top_def)
  have thr: "\<forall>c k out l s'. exThrow s t c k out = Inr (l, s') \<longrightarrow> l = last ?ks"
  proof (intro allI impI)
    fix c k out l s' assume "exThrow s t c k out = Inr (l, s')"
    from exThrow_Inr(3)[OF this] mr(1) show "l = last ?ks" by simp
  qed
  have jmp: "\<forall>c k out h. check_cause (exceptionList s) k = None \<and>
              allocExceptionEntry_scan (exceptionList s) 0 = Some h \<longrightarrow>
              (\<exists>s'. exThrow s t c k out = Inr (last ?ks, s') \<and> in_flight (exceptionList s') t h)"
  proof (intro allI impI)
    fix c k out h
    assume a: "check_cause (exceptionList s) k = None \<and>
              allocExceptionEntry_scan (exceptionList s) 0 = Some h"
    with mr(1) obtain s' where s': "exThrow s t c k out = Inr (last ?ks, s')"
      by (simp add: exThrow_def allocExceptionEntry_def Let_def)
    from exThrow_Inr(1,6)[OF s'] a have "in_flight (exceptionList s') t h"
      by (auto simp: in_flight_def)
    with s' show "\<exists>s'. exThrow s t c k out = Inr (last ?ks, s') \<and> in_flight (exceptionList s') t h"
      by blast
  qed
  from len ne mr ow thr jmp show ?thesis by blast
qed

lemma demo_two_threads_run: "run demo_init [Push 1, Push 2, Push 1] = Some demo_two_threads"
  by (simp add: pushCallingEnv_def demo_two_threads_def demo_defs)

lemma demo_two_threads_entered: "entered 1 demo_init [Push 1, Push 2, Push 1] = [0, 2]"
  by (simp add: pushCallingEnv_def demo_defs)

lemma demo_reenter: "pushCallingEnv demo_other_entered 1 = Inr (2, demo_reentered)"
  by (simp add: pushCallingEnv_def demo_defs demo_other_entered_def demo_reentered_def)

lemma demo_reentered_run: "run demo_caught [Push 2, Push 1] = Some demo_reentered"
  using demo_other_enter demo_reenter by simp

lemma demo_reentered_entered: "entered 1 demo_caught [Push 2, Push 1] = [2]"
  using demo_other_enter demo_reenter by simp

lemma demo_reentered_pool:
  "check_cause (exceptionList demo_reentered) (Some 0) = None"
  "allocExceptionEntry_scan (exceptionList demo_reentered) 0 = Some 1"
  by (simp_all add: check_cause_def getExceptionEntry_def demo_defs demo_other_entered_def
      demo_reentered_def)

theorem exThrow_targets_innermost_witness:
  "reachable demo_init \<and> run demo_init [Push 1, Push 2, Push 1] = Some demo_two_threads
   \<and> (\<forall>e. Pop 1 e \<notin> set [Push 1, Push 2, Push 1]) \<and> Push 1 \<in> set [Push 1, Push 2, Push 1]
   \<and> entered 1 demo_init [Push 1, Push 2, Push 1] = [0, 2]
   \<and> getLastEnvEntry (envList demo_two_threads) 1 = Some 2
   \<and> owned (envList demo_two_threads) 1 2
   \<and> reachable demo_caught \<and> run demo_caught [Push 2, Push 1] = Some demo_reentered
   \<and> (\<forall>e. Pop 1 e \<notin> set [Push 2, Push 1]) \<and> Push 1 \<in> set [Push 2, Push 1]
   \<and> entered 1 demo_caught [Push 2, Push 1] = [2]
   \<and> check_cause (exceptionList demo_reentered) (Some 0) = None
   \<and> allocExceptionEntry_scan (exceptionList demo_reentered) 0 = Some 1
   \<and> (\<exists>s'. exThrow demo_reentered 1 exOther (Some 0) ''Wrapped.'' = Inr (2, s') \<and>
            in_flight (exceptionList s') 1 1)"
proof -
  have r: "reachable demo_init" by (simp add: demo_init_def reachable_init)
  have np: "\<forall>e. Pop 1 e \<notin> set [Push 1, Push 2, Push 1]" by simp
  have p: "Push 1 \<in> set [Push 1, Push 2, Push 1]" by simp
  from exThrow_targets_innermost[OF r demo_two_threads_run np p]
  have 1: "getLastEnvEntry (envList demo_two_threads) 1 = Some 2
        \<and> owned (envList demo_two_threads) 1 2"
    unfolding demo_two_threads_entered by simp
  have np2: "\<forall>e. Pop 1 e \<notin> set [Push 2, Push 1]" by simp
  have p2: "Push 1 \<in> set [Push 2, Push 1]" by simp
  from exThrow_targets_innermost[OF demo_caught_reachable demo_reentered_run np2 p2]
  have "\<forall>c k out h. check_cause (exceptionList demo_reentered) k = None \<and>
              allocExceptionEntry_scan (exceptionList demo_reentered) 0 = Some h \<longrightarrow>
              (\<exists>s'. exThrow demo_reentered 1 c k out = Inr (2, s') \<and>
                    in_flight (exceptionList s') 1 h)"
    unfolding demo_reentered_entered by simp
  with demo_reentered_pool
  have 2: "\<exists>s'. exThrow demo_reentered 1 exOther (Some 0) ''Wrapped.'' = Inr (2, s') \<and>
            in_flight (exceptionList s') 1 1" by blast
  from r demo_two_threads_run np p demo_two_threads_entered 1
    demo_caught_reachable demo_reentered_run np2 p2 demo_reentered_entered demo_reentered_pool 2
  show ?thesis by (intro conjI) simp_all
qed

section \<open>The invariant of the causes\<close>

lemma cause_invI:
  assumes "\<And>q r. points_to xs q r \<Longrightarrow> r < length xs \<and> ex_used (xs ! r) \<and> ex_cause (xs ! r)"
    and "\<And>q q' r. points_to xs q r \<Longrightarrow> points_to xs q' r \<Longrightarrow> q = q'"
    and "\<And>r. r < length xs \<Longrightarrow> ex_used (xs ! r) \<Longrightarrow> ex_cause (xs ! r) \<Longrightarrow> \<exists>q. points_to xs q r"
    and "\<And>q r. points_to xs q r \<Longrightarrow> (rank r :: nat) < rank q"
  shows "cause_inv xs"
  unfolding cause_inv_def using assms by blast

lemma cause_invD:
  assumes "cause_inv xs"
  shows "points_to xs q r \<Longrightarrow> r < length xs \<and> ex_used (xs ! r) \<and> ex_cause (xs ! r)"
    and "points_to xs q r \<Longrightarrow> points_to xs q' r \<Longrightarrow> q = q'"
    and "r < length xs \<Longrightarrow> ex_used (xs ! r) \<Longrightarrow> ex_cause (xs ! r) \<Longrightarrow> \<exists>q. points_to xs q r"
  using assms unfolding cause_inv_def by blast+

lemma cause_inv_rank:
  "cause_inv xs \<Longrightarrow> \<exists>rank :: nat \<Rightarrow> nat. \<forall>q r. points_to xs q r \<longrightarrow> rank r < rank q"
  unfolding cause_inv_def by blast

lemma cause_inv_init: "cause_inv (replicate n zeroExceptionEntry)"
  by (rule cause_invI[where rank = "\<lambda>i. 0"])
     (auto simp: points_to_def zeroExceptionEntry_def)

lemma referrers_le_1:
  assumes "cause_inv xs"
  shows "length (referrers xs r) \<le> 1"
proof -
  have d: "distinct (referrers xs r)" by (simp add: referrers_def)
  have "\<forall>q \<in> set (referrers xs r). points_to xs q r"
    by (auto simp: referrers_def points_to_def)
  with cause_invD(2)[OF assms] have "\<forall>q \<in> set (referrers xs r). \<forall>q' \<in> set (referrers xs r). q = q'"
    by blast
  then have "card (set (referrers xs r)) \<le> 1"
    by (cases "set (referrers xs r) = {}") (auto simp: card_le_Suc0_iff_eq)
  with d show ?thesis by (simp add: distinct_card)
qed

lemma cause_inv_cong:
  assumes "cause_inv xs" and "length ys = length xs"
    and "\<forall>j < length xs. ex_used (ys ! j) = ex_used (xs ! j) \<and> ex_cause (ys ! j) = ex_cause (xs ! j)
           \<and> cause (exception (ys ! j)) = cause (exception (xs ! j))"
  shows "cause_inv ys"
proof -
  have pt: "points_to ys q r = points_to xs q r" for q r
    using assms(2,3) by (auto simp: points_to_def)
  from cause_inv_rank[OF assms(1)] obtain rank :: "nat \<Rightarrow> nat"
    where rk: "\<And>q r. points_to xs q r \<Longrightarrow> rank r < rank q" by blast
  show ?thesis
  proof (rule cause_invI[where rank = rank])
    fix q r assume "points_to ys q r"
    then have "points_to xs q r" by (simp add: pt)
    from cause_invD(1)[OF assms(1) this] assms(2,3)
    show "r < length ys \<and> ex_used (ys ! r) \<and> ex_cause (ys ! r)" by simp
  next
    fix q q' r assume "points_to ys q r" "points_to ys q' r"
    then show "q = q'" using cause_invD(2)[OF assms(1)] by (simp add: pt)
  next
    fix r assume "r < length ys" "ex_used (ys ! r)" "ex_cause (ys ! r)"
    with assms(2,3) have "r < length xs" "ex_used (xs ! r)" "ex_cause (xs ! r)" by simp_all
    from cause_invD(3)[OF assms(1) this] show "\<exists>q. points_to ys q r" by (simp add: pt)
  next
    fix q r assume "points_to ys q r"
    then show "rank r < rank q" using rk by (simp add: pt)
  qed
qed

lemma cause_inv_attach:
  assumes inv: "cause_inv xs" and len: "length ys = length xs"
    and h: "h < length xs" and nu: "\<not> ex_used (xs ! h)"
    and cc: "check_cause xs cs = None"
    and fl: "\<forall>j < length xs.
           ex_used (ys ! j) = (ex_used (xs ! j) \<or> j = h) \<and>
           ex_cause (ys ! j) = (j \<noteq> h \<and> (ex_cause (xs ! j) \<or> cs = Some j)) \<and>
           cause (exception (ys ! j)) = (if j = h then cs else cause (exception (xs ! j)))"
  shows "cause_inv ys"
proof -
  from cause_inv_rank[OF inv] obtain rank :: "nat \<Rightarrow> nat"
    where rk: "\<And>q r. points_to xs q r \<Longrightarrow> rank r < rank q" by blast
  have pt: "points_to ys q r \<longleftrightarrow> (q = h \<and> cs = Some r) \<or> (q \<noteq> h \<and> points_to xs q r)" for q r
    using len h fl nu by (auto simp: points_to_def split: if_splits)
  have no_h: "\<not> points_to xs q h" for q
    using cause_invD(1)[OF inv, of q h] nu by blast
  have cs: "r < length xs \<and> ex_used (xs ! r) \<and> \<not> ex_cause (xs ! r) \<and> r \<noteq> h" if "cs = Some r" for r
    using cc nu that by (auto simp: check_cause_None)
  have no_cs: "\<not> points_to xs q r" if "cs = Some r" for q r
    using cause_invD(1)[OF inv, of q r] cs[OF that] by blast
  let ?rank = "case cs of None \<Rightarrow> rank | Some r \<Rightarrow> rank(h := Suc (rank r))"
  show ?thesis
  proof (rule cause_invI[where rank = ?rank])
    fix q r assume "points_to ys q r"
    then consider "q = h" "cs = Some r" | "q \<noteq> h" "points_to xs q r" by (auto simp: pt)
    then show "r < length ys \<and> ex_used (ys ! r) \<and> ex_cause (ys ! r)"
    proof cases
      case 1
      from cs[OF 1(2)] fl len 1(2) show ?thesis by simp
    next
      case 2
      from cause_invD(1)[OF inv 2(2)] have r: "r < length xs" "ex_used (xs ! r)" "ex_cause (xs ! r)"
        by simp_all
      with nu have "r \<noteq> h" by auto
      with r fl len show ?thesis by simp
    qed
  next
    fix q q' r assume "points_to ys q r" "points_to ys q' r"
    then show "q = q'"
      using no_cs cause_invD(2)[OF inv, of q r q'] by (auto simp: pt)
  next
    fix r assume r: "r < length ys" "ex_used (ys ! r)" "ex_cause (ys ! r)"
    with fl len have rh: "r \<noteq> h" and c: "ex_cause (xs ! r) \<or> cs = Some r" and u: "ex_used (xs ! r)"
      by auto
    show "\<exists>q. points_to ys q r"
    proof (cases "cs = Some r")
      case True
      then have "points_to ys h r" by (simp add: pt)
      then show ?thesis ..
    next
      case False
      with c have "ex_cause (xs ! r)" by simp
      from cause_invD(3)[OF inv _ u this] r(1) len obtain q where q: "points_to xs q r" by auto
      with nu have "q \<noteq> h" by (auto simp: points_to_def)
      with q have "points_to ys q r" by (simp add: pt)
      then show ?thesis ..
    qed
  next
    fix q r assume "points_to ys q r"
    then consider "q = h" "cs = Some r" | "q \<noteq> h" "points_to xs q r" by (auto simp: pt)
    then show "?rank r < ?rank q"
    proof cases
      case 1
      with cs[OF 1(2)] show ?thesis by simp
    next
      case 2
      from 2(2) no_h have "r \<noteq> h" by auto
      with 2 rk[OF 2(2)] show ?thesis by (simp split: option.splits)
    qed
  qed
qed

lemma chain_valid: "chain xs e hs \<Longrightarrow> q \<in> set hs \<Longrightarrow> q < length xs"
  by (induction rule: chain.induct) auto

lemma chain_Some_hd: "chain xs (Some h) hs \<Longrightarrow> h \<in> set hs"
  by (auto elim: chain.cases)

lemma chain_closed:
  "chain xs e hs \<Longrightarrow> q \<in> set hs \<Longrightarrow> cause (exception (xs ! q)) = Some r \<Longrightarrow> r \<in> set hs"
proof (induction rule: chain.induct)
  case (chain_end xs)
  then show ?case by simp
next
  case (chain_link h xs hs)
  show ?case
  proof (cases "q = h")
    case True
    with chain_link.prems(2) chain_link.hyps(2) have "chain xs (Some r) hs" by simp
    then show ?thesis by (auto dest: chain_Some_hd)
  next
    case False
    with chain_link show ?thesis by auto
  qed
qed

lemma chain_pred:
  "chain xs e hs \<Longrightarrow> r \<in> set hs \<Longrightarrow>
     e = Some r \<or> (\<exists>p \<in> set hs. cause (exception (xs ! p)) = Some r)"
proof (induction rule: chain.induct)
  case (chain_end xs)
  then show ?case by simp
next
  case (chain_link h xs hs)
  show ?case
  proof (cases "r = h")
    case True
    then show ?thesis by simp
  next
    case False
    with chain_link.prems have "r \<in> set hs" by simp
    from chain_link.IH[OF this] show ?thesis by auto
  qed
qed

lemma chain_used:
  "chain xs e hs \<Longrightarrow> (\<forall>q r. points_to xs q r \<longrightarrow> ex_used (xs ! r)) \<Longrightarrow>
   (\<forall>h. e = Some h \<longrightarrow> ex_used (xs ! h)) \<Longrightarrow> q \<in> set hs \<Longrightarrow> ex_used (xs ! q)"
proof (induction rule: chain.induct)
  case (chain_end xs)
  then show ?case by simp
next
  case (chain_link h xs hs)
  from chain_link.prems(2) have uh: "ex_used (xs ! h)" by simp
  show ?case
  proof (cases "q = h")
    case True
    with uh show ?thesis by simp
  next
    case False
    with chain_link.prems(3) have q: "q \<in> set hs" by simp
    have "\<forall>r. cause (exception (xs ! h)) = Some r \<longrightarrow> ex_used (xs ! r)"
      using chain_link.prems(1) uh chain_link.hyps(1) by (auto simp: points_to_def)
    from chain_link.IH[OF chain_link.prems(1) this q] show ?thesis .
  qed
qed

lemma points_to_release:
  "points_to (release A xs) q r \<longleftrightarrow> points_to xs q r \<and> q \<notin> A"
  by (auto simp: points_to_def release_fields)

lemma cause_inv_release:
  assumes inv: "cause_inv xs" and ch: "chain xs (Some h) hs"
    and uh: "ex_used (xs ! h)" and nc: "\<not> ex_cause (xs ! h)"
  shows "cause_inv (release (set hs) xs)"
proof -
  from cause_inv_rank[OF inv] obtain rank :: "nat \<Rightarrow> nat"
    where rk: "\<And>q r. points_to xs q r \<Longrightarrow> rank r < rank q" by blast
  have used: "ex_used (xs ! q)" if "q \<in> set hs" for q
    using chain_used[OF ch _ _ that] cause_invD(1)[OF inv] uh by blast
  have outside: "r \<notin> set hs" if "points_to xs q r" "q \<notin> set hs" for q r
  proof
    assume "r \<in> set hs"
    from chain_pred[OF ch this]
    consider "r = h" | p where "p \<in> set hs" "cause (exception (xs ! p)) = Some r" by auto
    then show False
    proof cases
      case 1
      with cause_invD(1)[OF inv that(1)] nc show False by simp
    next
      case 2
      with used[OF 2(1)] chain_valid[OF ch 2(1)] have "points_to xs p r"
        by (simp add: points_to_def)
      from cause_invD(2)[OF inv that(1) this] that(2) 2(1) show False by simp
    qed
  qed
  show ?thesis
  proof (rule cause_invI[where rank = rank])
    fix q r assume "points_to (release (set hs) xs) q r"
    then have p: "points_to xs q r" "q \<notin> set hs" by (simp_all add: points_to_release)
    from cause_invD(1)[OF inv p(1)] outside[OF p]
    show "r < length (release (set hs) xs) \<and> ex_used (release (set hs) xs ! r) \<and>
          ex_cause (release (set hs) xs ! r)"
      by (simp add: release_fields)
  next
    fix q q' r
    assume "points_to (release (set hs) xs) q r" "points_to (release (set hs) xs) q' r"
    then show "q = q'" using cause_invD(2)[OF inv, of q r q'] by (simp add: points_to_release)
  next
    fix r assume "r < length (release (set hs) xs)" "ex_used (release (set hs) xs ! r)"
      "ex_cause (release (set hs) xs ! r)"
    then have r: "r < length xs" "ex_used (xs ! r)" "r \<notin> set hs" "ex_cause (xs ! r)"
      by (simp_all add: release_fields)
    from cause_invD(3)[OF inv r(1,2,4)] obtain q where q: "points_to xs q r" by blast
    have "q \<notin> set hs"
    proof
      assume "q \<in> set hs"
      from chain_closed[OF ch this] q r(3) show False by (simp add: points_to_def)
    qed
    with q have "points_to (release (set hs) xs) q r" by (simp add: points_to_release)
    then show "\<exists>q. points_to (release (set hs) xs) q r" ..
  next
    fix q r assume "points_to (release (set hs) xs) q r"
    then show "rank r < rank q" using rk by (simp add: points_to_release)
  qed
qed

lemma chain_exists:
  assumes inv: "cause_inv xs" and "h < length xs" and "ex_used (xs ! h)"
  shows "\<exists>hs. chain xs (Some h) hs"
proof -
  from cause_inv_rank[OF inv] obtain rank :: "nat \<Rightarrow> nat"
    where rk: "\<And>q r. points_to xs q r \<Longrightarrow> rank r < rank q" by blast
  have "h < length xs \<Longrightarrow> ex_used (xs ! h) \<Longrightarrow> \<exists>hs. chain xs (Some h) hs" for h
  proof (induction "rank h" arbitrary: h rule: less_induct)
    case less
    show ?case
    proof (cases "cause (exception (xs ! h))")
      case None
      have "chain xs (Some h) [h]"
        by (rule chain.chain_link) (simp_all add: less.prems None chain.chain_end)
      then show ?thesis ..
    next
      case (Some r)
      with less.prems have p: "points_to xs h r" by (simp add: points_to_def)
      from cause_invD(1)[OF inv p] rk[OF p] less.hyps[of r]
      obtain hs where "chain xs (Some r) hs" by blast
      with Some less.prems(1) have "chain xs (Some h) (h # hs)"
        by (auto intro: chain.chain_link)
      then show ?thesis ..
    qed
  qed
  with assms(2,3) show ?thesis by blast
qed

lemma chain_rank:
  "chain xs e hs \<Longrightarrow> (\<forall>q r. points_to xs q r \<longrightarrow> ex_used (xs ! r) \<and> rank r < (rank q :: nat)) \<Longrightarrow>
   (\<forall>h. e = Some h \<longrightarrow> ex_used (xs ! h)) \<Longrightarrow>
   distinct hs \<and> (\<forall>q \<in> set hs. \<forall>h. e = Some h \<longrightarrow> rank q \<le> rank h)"
proof (induction rule: chain.induct)
  case (chain_end xs)
  then show ?case by simp
next
  case (chain_link h xs hs)
  from chain_link.prems(2) have uh: "ex_used (xs ! h)" by simp
  have nxt: "\<forall>r. cause (exception (xs ! h)) = Some r \<longrightarrow> ex_used (xs ! r) \<and> rank r < rank h"
    using chain_link.prems(1) uh chain_link.hyps(1) by (auto simp: points_to_def)
  then have "\<forall>r. cause (exception (xs ! h)) = Some r \<longrightarrow> ex_used (xs ! r)" by blast
  from chain_link.IH[OF chain_link.prems(1) this]
  have ih: "distinct hs"
    "\<forall>q \<in> set hs. \<forall>r. cause (exception (xs ! h)) = Some r \<longrightarrow> rank q \<le> rank r" by simp_all
  have lt: "rank q < rank h" if "q \<in> set hs" for q
  proof -
    from chain_link.hyps(2) that obtain r where r: "cause (exception (xs ! h)) = Some r"
      by (cases "cause (exception (xs ! h))") (auto elim: chain.cases)
    with ih(2) that have "rank q \<le> rank r" by blast
    with nxt r show ?thesis by force
  qed
  then have "h \<notin> set hs" by auto
  with ih(1) lt show ?case by (auto simp: less_imp_le)
qed

lemma chain_distinct:
  assumes inv: "cause_inv xs" and ch: "chain xs (Some h) hs" and uh: "ex_used (xs ! h)"
  shows "distinct hs"
proof -
  from cause_inv_rank[OF inv] obtain rank :: "nat \<Rightarrow> nat"
    where rk: "\<And>q r. points_to xs q r \<Longrightarrow> rank r < rank q" by blast
  have "\<forall>q r. points_to xs q r \<longrightarrow> ex_used (xs ! r) \<and> rank r < rank q"
    using rk cause_invD(1)[OF inv] by blast
  from chain_rank[OF ch this] uh show ?thesis by simp
qed

lemma used_count_card: "used_count xs = card {i. i < length xs \<and> ex_used (xs ! i)}"
  by (simp add: used_count_def length_filter_conv_card)

lemma used_count_release:
  assumes "distinct hs" and "\<forall>q \<in> set hs. q < length xs \<and> ex_used (xs ! q)"
  shows "used_count (release (set hs) xs) + length hs = used_count xs"
proof -
  let ?U = "{i. i < length xs \<and> ex_used (xs ! i)}"
  have fin: "finite ?U" by simp
  have sub: "set hs \<subseteq> ?U" using assms(2) by auto
  have "{i. i < length (release (set hs) xs) \<and> ex_used (release (set hs) xs ! i)} = ?U - set hs"
    by (auto simp: release_fields)
  then have "used_count (release (set hs) xs) = card (?U - set hs)"
    by (simp add: used_count_card)
  also have "\<dots> = card ?U - card (set hs)" using sub by (simp add: card_Diff_subset)
  finally have "used_count (release (set hs) xs) = card ?U - length hs"
    using assms(1) by (simp add: distinct_card)
  moreover have "length hs \<le> card ?U"
    using card_mono[OF fin sub] assms(1) by (simp add: distinct_card)
  ultimately show ?thesis by (simp add: used_count_card)
qed

lemma cause_inv_step:
  assumes "cause_inv (exceptionList s)" and "step s c = Some s'"
  shows "cause_inv (exceptionList s')"
proof -
  let ?xs = "exceptionList s"
  from step_cases[OF assms(2)]
  consider (push) t u where "pushCallingEnv s t = Inr (u, s')"
    | (pop) t e where "popCallingEnv s t e = Inr s'"
    | (alloc) k cs out h where "exAlloc s k cs out = Inr (h, s')"
    | (throw) t k cs out l where "exThrow s t k cs out = Inr (l, s')"
    | (repeat) t e l where "exRepeat s t e = Inr (l, s')"
    | (free) e where "exFree s e = Some (Inr s')"
    by blast
  then show ?thesis
  proof cases
    case push
    from pushCallingEnv_Inr(4)[OF this] assms(1) show ?thesis by simp
  next
    case pop
    note f = popCallingEnv_fields[OF pop]
    show ?thesis by (rule cause_inv_cong[OF assms(1) f(1)]) (use f(2) in simp)
  next
    case alloc
    note a = exAlloc_Inr[OF alloc]
    show ?thesis
      by (rule cause_inv_attach[OF assms(1) a(7) a(1) a(2) a(4)])
         (simp add: exAlloc_fields[OF alloc])
  next
    case throw
    from exThrow_Inr(1)[OF throw] obtain h
      where h: "allocExceptionEntry_scan ?xs 0 = Some h" "h < length ?xs" "\<not> ex_used (?xs ! h)"
      by blast
    show ?thesis
      by (rule cause_inv_attach[OF assms(1) exThrow_Inr(6)[OF throw] h(2,3) exThrow_Inr(2)[OF throw]])
         (simp add: exThrow_fields[OF throw h(1)])
  next
    case repeat
    from exRepeat_Inr(1)[OF repeat] obtain h where h: "h < length ?xs"
      and s': "exceptionList s' = ?xs[h := (?xs ! h)\<lparr>ex_thrown := True, ex_thread := t\<rparr>]"
      by auto
    show ?thesis
      by (rule cause_inv_cong[OF assms(1)]) (use h in \<open>auto simp: s' nth_list_update\<close>)
  next
    case free
    from exFree_Inr[OF free] obtain h hs where h: "e = Some h" "ex_used (?xs ! h)"
      "\<not> ex_cause (?xs ! h)" "chain ?xs e hs" "s' = s\<lparr>exceptionList := release (set hs) ?xs\<rparr>"
      by blast
    from cause_inv_release[OF assms(1) h(4)[unfolded h(1)] h(2,3)] h(5) show ?thesis by simp
  qed
qed

lemma cause_inv_reachable: "reachable s \<Longrightarrow> cause_inv (exceptionList s)"
proof (induction rule: reachable_induct)
  case (init vars)
  show ?case by (simp add: exInit_def cause_inv_init)
next
  case (step s c s')
  from cause_inv_step[OF step.IH step.hyps(2)] show ?case .
qed

section \<open>Causes: attaching and freeing\<close>

lemma demo_wrapped_chain: "chain (exceptionList demo_wrapped) (Some 1) [1, 0]"
proof -
  let ?xs = "exceptionList demo_wrapped"
  have c: "cause (exception (?xs ! 0)) = None" "cause (exception (?xs ! 1)) = Some 0"
    and l: "0 < length ?xs" "1 < length ?xs"
    by (simp_all add: demo_defs2)
  have "chain ?xs (cause (exception (?xs ! 0))) []" unfolding c by (rule chain.chain_end)
  from chain.chain_link[OF l(1) this] have "chain ?xs (cause (exception (?xs ! 1))) [0]"
    unfolding c .
  from chain.chain_link[OF l(2) this] show ?thesis .
qed

lemma singleton_list: "length xs \<le> 1 \<Longrightarrow> h \<in> set xs \<Longrightarrow> xs = [h]"
  by (cases xs) auto

text \<open>
  Claim C3: in every reachable state, for every record \<open>r\<close>, at most one record in use
  has a cause pointer that points to \<open>r\<close>. Given the cause \<open>r\<close>, \<^verbatim>\<open>exAlloc\<close> and \<^verbatim>\<open>exThrow\<close>
  stop with a failed assertion, the state unchanged, when \<open>r\<close> is not in use, or is
  marked as a cause already, or is thrown. When they return (or jump), \<open>r\<close> was in use,
  not marked, not thrown and had no referrer; afterwards \<open>r\<close> is marked as a cause and
  the new record is its only referrer.
\<close>

theorem at_most_one_referrer:
  assumes "reachable s"
  shows "length (referrers (exceptionList s) r) \<le> 1
       \<and> (r < length (exceptionList s) \<and>
            (\<not> ex_used (exceptionList s ! r) \<or> ex_cause (exceptionList s ! r) \<or>
             ex_thrown (exceptionList s ! r)) \<longrightarrow>
            (\<forall>k out. exAlloc s k (Some r) out = Inl (AssertionFailed, s)) \<and>
            (\<forall>t k out. exThrow s t k (Some r) out = Inl (AssertionFailed, s)))
       \<and> (\<forall>k out h s'. exAlloc s k (Some r) out = Inr (h, s') \<longrightarrow>
            ex_used (exceptionList s ! r) \<and> \<not> ex_cause (exceptionList s ! r) \<and>
            \<not> ex_thrown (exceptionList s ! r) \<and> referrers (exceptionList s) r = [] \<and>
            ex_cause (exceptionList s' ! r) \<and> referrers (exceptionList s') r = [h])
       \<and> (\<forall>t k out l s'. exThrow s t k (Some r) out = Inr (l, s') \<longrightarrow>
            ex_used (exceptionList s ! r) \<and> \<not> ex_cause (exceptionList s ! r) \<and>
            \<not> ex_thrown (exceptionList s ! r) \<and> referrers (exceptionList s) r = [] \<and>
            ex_cause (exceptionList s' ! r) \<and>
            (\<exists>h. allocExceptionEntry_scan (exceptionList s) 0 = Some h \<and>
                 referrers (exceptionList s') r = [h]))"
proof -
  let ?xs = "exceptionList s"
  note inv = cause_inv_reachable[OF assms]
  have none: "referrers ?xs r = []" if "\<not> ex_cause (?xs ! r)"
  proof -
    have "\<not> points_to ?xs q r" for q using cause_invD(1)[OF inv, of q r] that by blast
    then show ?thesis by (auto simp: referrers_def points_to_def filter_empty_conv)
  qed
  have 1: "length (referrers ?xs r) \<le> 1" by (rule referrers_le_1[OF inv])
  have 2: "r < length ?xs \<and> (\<not> ex_used (?xs ! r) \<or> ex_cause (?xs ! r) \<or> ex_thrown (?xs ! r)) \<longrightarrow>
            (\<forall>k out. exAlloc s k (Some r) out = Inl (AssertionFailed, s)) \<and>
            (\<forall>t k out. exThrow s t k (Some r) out = Inl (AssertionFailed, s))"
    by (auto simp: exAlloc_def exThrow_def check_cause_def getExceptionEntry_eq)
  have 3: "\<forall>k out h s'. exAlloc s k (Some r) out = Inr (h, s') \<longrightarrow>
            ex_used (?xs ! r) \<and> \<not> ex_cause (?xs ! r) \<and> \<not> ex_thrown (?xs ! r) \<and>
            referrers ?xs r = [] \<and>
            ex_cause (exceptionList s' ! r) \<and> referrers (exceptionList s') r = [h]"
  proof (intro allI impI)
    fix k out h s' assume a: "exAlloc s k (Some r) out = Inr (h, s')"
    note i = exAlloc_Inr[OF a]
    from i(4) have r: "r < length ?xs" "ex_used (?xs ! r)" "\<not> ex_cause (?xs ! r)"
      "\<not> ex_thrown (?xs ! r)" by (simp_all add: check_cause_None)
    with i(2) have rh: "r \<noteq> h" by auto
    from a have "step s (Alloc k (Some r) out) = Some s'" by simp
    from reachable_step[OF assms this] have inv': "cause_inv (exceptionList s')"
      by (rule cause_inv_reachable)
    from exAlloc_fields(1,5)[OF a i(1)] i(1,7) have "h \<in> set (referrers (exceptionList s') r)"
      by (simp add: referrers_def)
    from singleton_list[OF referrers_le_1[OF inv'] this]
    have "referrers (exceptionList s') r = [h]" .
    moreover from exAlloc_fields(4)[OF a r(1)] rh have "ex_cause (exceptionList s' ! r)" by simp
    ultimately show "ex_used (?xs ! r) \<and> \<not> ex_cause (?xs ! r) \<and> \<not> ex_thrown (?xs ! r) \<and>
            referrers ?xs r = [] \<and>
            ex_cause (exceptionList s' ! r) \<and> referrers (exceptionList s') r = [h]"
      using r none by simp
  qed
  have 4: "\<forall>t k out l s'. exThrow s t k (Some r) out = Inr (l, s') \<longrightarrow>
            ex_used (?xs ! r) \<and> \<not> ex_cause (?xs ! r) \<and> \<not> ex_thrown (?xs ! r) \<and>
            referrers ?xs r = [] \<and>
            ex_cause (exceptionList s' ! r) \<and>
            (\<exists>h. allocExceptionEntry_scan ?xs 0 = Some h \<and> referrers (exceptionList s') r = [h])"
  proof (intro allI impI)
    fix t k out l s' assume a: "exThrow s t k (Some r) out = Inr (l, s')"
    from exThrow_Inr(1)[OF a] obtain h
      where h: "allocExceptionEntry_scan ?xs 0 = Some h" "h < length ?xs" "\<not> ex_used (?xs ! h)"
      by blast
    from exThrow_Inr(2)[OF a] have r: "r < length ?xs" "ex_used (?xs ! r)" "\<not> ex_cause (?xs ! r)"
      "\<not> ex_thrown (?xs ! r)" by (simp_all add: check_cause_None)
    with h(3) have rh: "r \<noteq> h" by auto
    from a have "step s (Throw t k (Some r) out) = Some s'" by simp
    from reachable_step[OF assms this] have inv': "cause_inv (exceptionList s')"
      by (rule cause_inv_reachable)
    from exThrow_fields(1,5)[OF a h(1) h(2)] h(2) exThrow_Inr(6)[OF a]
    have "h \<in> set (referrers (exceptionList s') r)" by (simp add: referrers_def)
    from singleton_list[OF referrers_le_1[OF inv'] this]
    have "referrers (exceptionList s') r = [h]" .
    moreover from exThrow_fields(4)[OF a h(1) r(1)] rh have "ex_cause (exceptionList s' ! r)"
      by simp
    ultimately show "ex_used (?xs ! r) \<and> \<not> ex_cause (?xs ! r) \<and> \<not> ex_thrown (?xs ! r) \<and>
            referrers ?xs r = [] \<and>
            ex_cause (exceptionList s' ! r) \<and>
            (\<exists>h. allocExceptionEntry_scan ?xs 0 = Some h \<and> referrers (exceptionList s') r = [h])"
      using r none h(1) by simp
  qed
  from 1 2 3 4 show ?thesis by (intro conjI)
qed

theorem at_most_one_referrer_witness:
  "reachable demo_caught
   \<and> exAlloc demo_caught exOther (Some 0) ''Wrapped.'' = Inr (1, demo_wrapped)
   \<and> referrers (exceptionList demo_caught) 0 = []
   \<and> ex_cause (exceptionList demo_wrapped ! 0)
   \<and> referrers (exceptionList demo_wrapped) 0 = [1]
   \<and> reachable demo_wrapped
   \<and> 0 < length (exceptionList demo_wrapped) \<and> ex_cause (exceptionList demo_wrapped ! 0)
   \<and> exAlloc demo_wrapped exOther (Some 0) ''Again.'' = Inl (AssertionFailed, demo_wrapped)"
proof -
  from at_most_one_referrer[OF demo_caught_reachable, of 0] demo_wrap
  have 1: "referrers (exceptionList demo_caught) 0 = [] \<and>
           ex_cause (exceptionList demo_wrapped ! 0) \<and>
           referrers (exceptionList demo_wrapped) 0 = [1]"
    by blast
  have l: "0 < length (exceptionList demo_wrapped)" by (simp add: demo_defs2)
  with 1 at_most_one_referrer[OF demo_wrapped_reachable, of 0]
  have 2: "exAlloc demo_wrapped exOther (Some 0) ''Again.'' = Inl (AssertionFailed, demo_wrapped)"
    by blast
  from 1 2 l demo_caught_reachable demo_wrap demo_wrapped_reachable show ?thesis by blast
qed

text \<open>
  Claim C4: in a reachable state let record \<open>h\<close> be in use, not thrown and not the cause
  of a record in use. Then the loop of \<^verbatim>\<open>exFree\<close> ends: the cause chain \<open>hs\<close> of \<open>h\<close>
  exists, its \<open>k = length hs\<close> records are distinct and in use, and \<^verbatim>\<open>exFree\<close> returns
  with exactly these released: their in-use flags are clear, every other entry of the
  pool is as before, and the count of records in use has dropped by \<open>k\<close>. On a record
  that is thrown, or marked as a cause, or the cause of a record in use, \<^verbatim>\<open>exFree\<close>
  stops with a failed assertion and leaves the state unchanged.
\<close>

theorem exFree_releases_chain:
  assumes "reachable s" and "h < length (exceptionList s)"
  shows "(ex_used (exceptionList s ! h) \<and> \<not> ex_thrown (exceptionList s ! h) \<and>
          (\<forall>q. \<not> points_to (exceptionList s) q h) \<longrightarrow>
          (\<exists>hs. chain (exceptionList s) (Some h) hs \<and> distinct hs \<and>
             (\<forall>q \<in> set hs. q < length (exceptionList s) \<and> ex_used (exceptionList s ! q)) \<and>
             exFree s (Some h) = Some (Inr (s\<lparr>exceptionList := release (set hs) (exceptionList s)\<rparr>)) \<and>
             (\<forall>q \<in> set hs. \<not> ex_used (release (set hs) (exceptionList s) ! q)) \<and>
             (\<forall>q < length (exceptionList s). q \<notin> set hs \<longrightarrow>
                 release (set hs) (exceptionList s) ! q = exceptionList s ! q) \<and>
             used_count (release (set hs) (exceptionList s)) + length hs =
               used_count (exceptionList s)))
       \<and> (ex_thrown (exceptionList s ! h) \<or> ex_cause (exceptionList s ! h) \<or>
          (\<exists>q. points_to (exceptionList s) q h) \<longrightarrow>
          exFree s (Some h) = Some (Inl (AssertionFailed, s)))"
proof (intro conjI impI)
  let ?xs = "exceptionList s"
  note inv = cause_inv_reachable[OF assms(1)]
  assume a: "ex_used (?xs ! h) \<and> \<not> ex_thrown (?xs ! h) \<and> (\<forall>q. \<not> points_to ?xs q h)"
  with cause_invD(3)[OF inv assms(2)] have nc: "\<not> ex_cause (?xs ! h)" by blast
  from chain_exists[OF inv assms(2)] a obtain hs where ch: "chain ?xs (Some h) hs" by blast
  from chain_distinct[OF inv ch] a have d: "distinct hs" by simp
  have u: "\<forall>q \<in> set hs. q < length ?xs \<and> ex_used (?xs ! q)"
    using chain_valid[OF ch] chain_used[OF ch] cause_invD(1)[OF inv] a by blast
  from exFree_chain[OF assms(2) _ nc _ ch] a
  have f: "exFree s (Some h) = Some (Inr (s\<lparr>exceptionList := release (set hs) ?xs\<rparr>))" by simp
  have c: "\<forall>q \<in> set hs. \<not> ex_used (release (set hs) ?xs ! q)"
    using u by (simp add: release_fields)
  have o: "\<forall>q < length ?xs. q \<notin> set hs \<longrightarrow> release (set hs) ?xs ! q = ?xs ! q"
    by (simp add: nth_release)
  from used_count_release[OF d u] ch d u f c o
  show "\<exists>hs. chain ?xs (Some h) hs \<and> distinct hs \<and>
             (\<forall>q \<in> set hs. q < length ?xs \<and> ex_used (?xs ! q)) \<and>
             exFree s (Some h) = Some (Inr (s\<lparr>exceptionList := release (set hs) ?xs\<rparr>)) \<and>
             (\<forall>q \<in> set hs. \<not> ex_used (release (set hs) ?xs ! q)) \<and>
             (\<forall>q < length ?xs. q \<notin> set hs \<longrightarrow> release (set hs) ?xs ! q = ?xs ! q) \<and>
             used_count (release (set hs) ?xs) + length hs = used_count ?xs"
    by blast
next
  let ?xs = "exceptionList s"
  note inv = cause_inv_reachable[OF assms(1)]
  assume "ex_thrown (?xs ! h) \<or> ex_cause (?xs ! h) \<or> (\<exists>q. points_to ?xs q h)"
  with cause_invD(1)[OF inv] have "ex_thrown (?xs ! h) \<or> ex_cause (?xs ! h)" by blast
  with assms(2) show "exFree s (Some h) = Some (Inl (AssertionFailed, s))"
    by (auto simp: exFree_def getExceptionEntry_eq)
qed

theorem exFree_releases_chain_witness:
  "reachable demo_wrapped \<and> 1 < length (exceptionList demo_wrapped)
   \<and> ex_used (exceptionList demo_wrapped ! 1) \<and> \<not> ex_thrown (exceptionList demo_wrapped ! 1)
   \<and> (\<forall>q. \<not> points_to (exceptionList demo_wrapped) q 1)
   \<and> chain (exceptionList demo_wrapped) (Some 1) [1, 0]
   \<and> exFree demo_wrapped (Some 1) = Some (Inr demo_freed)
   \<and> used_count (exceptionList demo_freed) + 2 = used_count (exceptionList demo_wrapped)
   \<and> 0 < length (exceptionList demo_wrapped) \<and> ex_cause (exceptionList demo_wrapped ! 0)
   \<and> exFree demo_wrapped (Some 0) = Some (Inl (AssertionFailed, demo_wrapped))"
proof -
  have l0: "0 < length (exceptionList demo_wrapped)" "ex_cause (exceptionList demo_wrapped ! 0)"
    by (simp_all add: demo_defs2)
  with exFree_releases_chain[OF demo_wrapped_reachable l0(1)]
  have p2: "exFree demo_wrapped (Some 0) = Some (Inl (AssertionFailed, demo_wrapped))" by blast
  have l: "1 < length (exceptionList demo_wrapped)" by (simp add: demo_defs2)
  have a: "ex_used (exceptionList demo_wrapped ! 1)" "\<not> ex_thrown (exceptionList demo_wrapped ! 1)"
    by (simp_all add: demo_defs2)
  have np: "\<forall>q. \<not> points_to (exceptionList demo_wrapped) q 1"
    by (auto simp: points_to_def demo_defs2 nth_Cons' split: if_splits)
  from exFree_releases_chain[OF demo_wrapped_reachable l] a np
  obtain hs where hs: "chain (exceptionList demo_wrapped) (Some 1) hs"
    "exFree demo_wrapped (Some 1) =
       Some (Inr (demo_wrapped\<lparr>exceptionList := release (set hs) (exceptionList demo_wrapped)\<rparr>))"
    "used_count (release (set hs) (exceptionList demo_wrapped)) + length hs =
       used_count (exceptionList demo_wrapped)"
    by blast
  from chain_unique[OF hs(1) demo_wrapped_chain] have e: "hs = [1, 0]" .
  from hs(2) demo_free
  have "demo_freed = demo_wrapped\<lparr>exceptionList := release (set hs) (exceptionList demo_wrapped)\<rparr>"
    by simp
  then have "exceptionList demo_freed = release (set hs) (exceptionList demo_wrapped)"
    by (metis registry.select_convs(2) registry.surjective registry.update_convs(2))
  with hs(3) e have "used_count (exceptionList demo_freed) + 2 = used_count (exceptionList demo_wrapped)"
    by simp
  with demo_wrapped_reachable l a np demo_wrapped_chain demo_free l0 p2 show ?thesis by blast
qed

section \<open>Free records and the thrown flag\<close>

lemmas demo_defs3 = demo_defs2 demo_repeated_cause_def demo_stale_def

lemma demo_repeat_cause: "exRepeat demo_wrapped 1 (Some 0) = Inr (0, demo_repeated_cause)"
  by (simp add: exRepeat_def getExceptionEntry_def getLastEnvEntry_def demo_defs3 Let_def)

lemma demo_free_in_flight: "exFree demo_repeated_cause (Some 1) = Some (Inr demo_stale)"
  by (simp add: exFree_def exFree_loop.simps getExceptionEntry_def demo_defs3)

lemma demo_stale_steps:
  "step demo_wrapped (Repeat 1 (Some 0)) = Some demo_repeated_cause"
  "step demo_repeated_cause (Free (Some 1)) = Some demo_stale"
  using demo_repeat_cause demo_free_in_flight by simp_all

lemma demo_stale_run:
  "run demo_init [Push 1, Push 1, Throw 1 exOther None ''No error.'', Pop 1 (Some 7),
                  Alloc exOther (Some 0) ''Wrapped.'', Repeat 1 (Some 0), Free (Some 1)]
     = Some demo_stale"
  by (simp only: run.simps demo_steps demo_stale_steps option.case)

lemma demo_stale_reachable: "reachable demo_stale"
  unfolding reachable_def using demo_stale_run[unfolded demo_init_def] by blast

text \<open>
  Claim C9: in every reachable state a record whose in-use flag is clear has its thrown
  flag clear; \<^verbatim>\<open>allocExceptionEntry\<close> relies on it, for it does not clear the thrown flag
  of the slot it hands out. The code breaks it on the following run. Thread 1 catches
  a record, wraps it as the cause of a new record and repeats the cause itself
  (\<^verbatim>\<open>exRepeat\<close> asserts that the record is in use and not thrown, but not that it is no
  cause, as \<^verbatim>\<open>exAlloc\<close>, \<^verbatim>\<open>exThrow\<close> and \<^verbatim>\<open>exFree\<close> do); before thread 1 reaches its
  \<^verbatim>\<open>popCallingEnv\<close>, the wrapper is freed (\<^verbatim>\<open>exFree\<close> asserts that the record given is
  not thrown, and its loop releases the cause with the thrown flag set). Every call
  returns. The next \<^verbatim>\<open>exAlloc\<close> then builds its record in that slot, and the record,
  never thrown, is what \<^verbatim>\<open>popCallingEnv\<close> hands to thread 1.
\<close>

theorem stale_thrown_flag_reachable:
  "run demo_init [Push 1, Push 1, Throw 1 exOther None ''No error.'', Pop 1 (Some 7),
                  Alloc exOther (Some 0) ''Wrapped.'', Repeat 1 (Some 0), Free (Some 1)]
     = Some demo_stale
   \<and> reachable demo_stale
   \<and> 0 < length (exceptionList demo_stale)
   \<and> \<not> ex_used (exceptionList demo_stale ! 0) \<and> ex_thrown (exceptionList demo_stale ! 0)
   \<and> (case exAlloc demo_stale exOther None ''Fresh.'' of
         Inl err \<Rightarrow> False
       | Inr (h, s') \<Rightarrow> h = 0 \<and> delivered s' 1 = Some 0)"
proof -
  have "0 < length (exceptionList demo_stale)"
    "\<not> ex_used (exceptionList demo_stale ! 0)" "ex_thrown (exceptionList demo_stale ! 0)"
    by (simp_all add: demo_defs3)
  moreover have "(case exAlloc demo_stale exOther None ''Fresh.'' of
         Inl err \<Rightarrow> False
       | Inr (h, s') \<Rightarrow> h = 0 \<and> delivered s' 1 = Some 0)"
    by (simp add: exAlloc_def check_cause_def allocExceptionEntry_def fill_exception_def
        mark_cause_def getExceptionEntry_def delivered_def demo_defs3)
  ultimately show ?thesis using demo_stale_run demo_stale_reachable by blast
qed

lemmas demo_defs4 = demo_defs3 demo_fresh_def demo_fresh_caught_def

lemma demo_alloc_fresh: "exAlloc demo_stale exOther None ''Fresh.'' = Inr (0, demo_fresh)"
  by (simp add: exAlloc_def check_cause_def allocExceptionEntry_def fill_exception_def
      mark_cause_def getExceptionEntry_def demo_defs4)

lemma demo_catch_fresh: "popCallingEnv demo_fresh 1 (Some 7) = Inr demo_fresh_caught"
  by (simp add: popCallingEnv_def getLastEnvEntry_def demo_defs4 Let_def)

lemma demo_fresh_steps:
  "step demo_stale (Alloc exOther None ''Fresh.'') = Some demo_fresh"
  "step demo_fresh (Pop 1 (Some 7)) = Some demo_fresh_caught"
  using demo_alloc_fresh demo_catch_fresh by simp_all

lemma demo_messages:
  "c_string (msg (exception (exceptionList demo_wrapped ! 0))) = ''No error.''"
  "c_string (msg (exception (exceptionList demo_fresh_caught ! 0))) = ''Fresh.''"
  by (simp_all add: c_string_def demo_defs4 vsnprintf_def vsnprintf_stored_def MAX_MSG_LEN_def
      NUL_def)

text \<open>
  Claim C8: a record repeated from a nested block and caught again in the enclosing
  block of the same thread is the same record, with its code, message and cause chain.
  The code breaks it on the run above, continued: thread 1 repeats record 0, whose
  message is \<open>No error.\<close>, while the record is the cause of record 1; before thread 1
  reaches the \<^verbatim>\<open>popCallingEnv\<close> of its first block, record 1 is freed, which releases
  record 0 with its thrown flag set, and \<^verbatim>\<open>exAlloc\<close> builds a record with the message
  \<open>Fresh.\<close> in that slot. Every call returns, and what thread 1 catches in its variable
  7 is the record with the message \<open>Fresh.\<close>.
\<close>

theorem exRepeat_catches_other_record:
  "run demo_init [Push 1, Push 1, Throw 1 exOther None ''No error.'', Pop 1 (Some 7),
                  Alloc exOther (Some 0) ''Wrapped.'', Repeat 1 (Some 0), Free (Some 1),
                  Alloc exOther None ''Fresh.'', Pop 1 (Some 7)]
     = Some demo_fresh_caught
   \<and> reachable demo_wrapped
   \<and> ptrs demo_wrapped 7 = Some 0
   \<and> ex_used (exceptionList demo_wrapped ! 0) \<and> \<not> ex_thrown (exceptionList demo_wrapped ! 0)
   \<and> c_string (msg (exception (exceptionList demo_wrapped ! 0))) = ''No error.''
   \<and> exRepeat demo_wrapped 1 (Some 0) = Inr (0, demo_repeated_cause)
   \<and> exFree demo_repeated_cause (Some 1) = Some (Inr demo_stale)
   \<and> exAlloc demo_stale exOther None ''Fresh.'' = Inr (0, demo_fresh)
   \<and> popCallingEnv demo_fresh 1 (Some 7) = Inr demo_fresh_caught
   \<and> ptrs demo_fresh_caught 7 = Some 0
   \<and> c_string (msg (exception (exceptionList demo_fresh_caught ! 0))) = ''Fresh.''
   \<and> msg (exception (exceptionList demo_fresh_caught ! 0))
       \<noteq> msg (exception (exceptionList demo_wrapped ! 0))"
proof -
  have r: "run demo_init [Push 1, Push 1, Throw 1 exOther None ''No error.'', Pop 1 (Some 7),
                  Alloc exOther (Some 0) ''Wrapped.'', Repeat 1 (Some 0), Free (Some 1),
                  Alloc exOther None ''Fresh.'', Pop 1 (Some 7)]
     = Some demo_fresh_caught"
    by (simp only: run.simps demo_steps demo_stale_steps demo_fresh_steps option.case)
  have p: "ptrs demo_wrapped 7 = Some 0" "ptrs demo_fresh_caught 7 = Some 0"
    "ex_used (exceptionList demo_wrapped ! 0)" "\<not> ex_thrown (exceptionList demo_wrapped ! 0)"
    by (simp_all add: demo_defs4)
  have "c_string (msg (exception (exceptionList demo_fresh_caught ! 0)))
          \<noteq> c_string (msg (exception (exceptionList demo_wrapped ! 0)))"
    unfolding demo_messages by simp
  then have d: "msg (exception (exceptionList demo_fresh_caught ! 0))
       \<noteq> msg (exception (exceptionList demo_wrapped ! 0))" by auto
  from r demo_wrapped_reachable p(1,3,4) demo_messages(1) demo_repeat_cause demo_free_in_flight
    demo_alloc_fresh demo_catch_fresh p(2) demo_messages(2) d
  show ?thesis by (intro conjI)
qed

lemma thrown_used_step:
  assumes "thrown_used (exceptionList s)" and "step s c = Some s'" and "\<not> frees_thrown s c"
  shows "thrown_used (exceptionList s')"
proof -
  let ?xs = "exceptionList s"
  from step_cases[OF assms(2)]
  consider (push) t u where "pushCallingEnv s t = Inr (u, s')"
    | (pop) t e where "popCallingEnv s t e = Inr s'"
    | (alloc) k cs out h where "exAlloc s k cs out = Inr (h, s')"
    | (throw) t k cs out l where "exThrow s t k cs out = Inr (l, s')"
    | (repeat) t e l where "exRepeat s t e = Inr (l, s')"
    | (free) e where "c = Free e" "exFree s e = Some (Inr s')"
    by blast
  then show ?thesis
  proof cases
    case push
    from pushCallingEnv_Inr(4)[OF this] assms(1) show ?thesis by simp
  next
    case pop
    note f = popCallingEnv_fields[OF pop]
    from assms(1) f show ?thesis by (simp add: thrown_used_def)
  next
    case alloc
    from assms(1) exAlloc_Inr(7)[OF alloc] exAlloc_fields(1,2)[OF alloc] show ?thesis
      by (simp add: thrown_used_def)
  next
    case throw
    from exThrow_Inr(1)[OF throw] obtain h
      where h: "allocExceptionEntry_scan ?xs 0 = Some h" by blast
    from assms(1) exThrow_Inr(6)[OF throw] exThrow_fields(1,2)[OF throw h] show ?thesis
      by (auto simp: thrown_used_def)
  next
    case repeat
    from exRepeat_Inr(1)[OF repeat] obtain h where h: "h < length ?xs" "ex_used (?xs ! h)"
      and s': "exceptionList s' = ?xs[h := (?xs ! h)\<lparr>ex_thrown := True, ex_thread := t\<rparr>]"
      by auto
    from assms(1) h show ?thesis by (auto simp: thrown_used_def s' nth_list_update)
  next
    case free
    from exFree_Inr[OF free(2)] obtain hs
      where s': "exceptionList s' = release (set hs) ?xs" by auto
    from assms(3) free
    have keep: "\<forall>i < length ?xs. ex_used (?xs ! i) \<and> ex_thrown (?xs ! i) \<longrightarrow> ex_used (exceptionList s' ! i)"
      by auto
    show ?thesis unfolding thrown_used_def
    proof (intro allI impI)
      fix i assume i: "i < length (exceptionList s')" "ex_thrown (exceptionList s' ! i)"
      with s' have "i < length ?xs" "ex_thrown (?xs ! i)" by (simp_all add: release_fields)
      with assms(1) keep show "ex_used (exceptionList s' ! i)" by (simp add: thrown_used_def)
    qed
  qed
qed

lemma thrown_used_run:
  "thrown_used (exceptionList s0) \<Longrightarrow> run s0 cs = Some s \<Longrightarrow> disciplined s0 cs \<Longrightarrow>
   thrown_used (exceptionList s)"
proof (induction cs arbitrary: s0)
  case Nil
  then show ?case by simp
next
  case (Cons c cs)
  from Cons.prems(2) obtain s1 where s1: "step s0 c = Some s1" "run s1 cs = Some s"
    by (auto split: option.splits)
  with Cons.prems(3) have d: "\<not> frees_thrown s0 c" "disciplined s1 cs" by simp_all
  from thrown_used_step[OF Cons.prems(1) s1(1) d(1)] Cons.IH[OF _ s1(2) d(2)] show ?case by simp
qed

lemma thrown_used_init: "thrown_used (exceptionList (exInit vars))"
  by (simp add: thrown_used_def exInit_def zeroExceptionEntry_def)

section \<open>Message buffers in reachable states\<close>

text \<open>
  Every call keeps each message buffer at \<^verbatim>\<open>MAX_MSG_LEN\<close> bytes, so the buffers have that
  size in every reachable state.
\<close>

lemma msg_sized_cong:
  assumes "msg_sized xs" and "length ys = length xs"
    and "\<forall>i < length xs. exception (ys ! i) = exception (xs ! i)"
  shows "msg_sized ys"
  using assms by (simp add: msg_sized_def)

lemma msg_sized_step:
  assumes "msg_sized (exceptionList s)" and "step s c = Some s'"
  shows "msg_sized (exceptionList s')"
proof -
  let ?xs = "exceptionList s"
  from step_cases[OF assms(2)]
  consider (push) t u where "pushCallingEnv s t = Inr (u, s')"
    | (pop) t e where "popCallingEnv s t e = Inr s'"
    | (alloc) k cs out h where "exAlloc s k cs out = Inr (h, s')"
    | (throw) t k cs out l where "exThrow s t k cs out = Inr (l, s')"
    | (repeat) t e l where "exRepeat s t e = Inr (l, s')"
    | (free) e where "exFree s e = Some (Inr s')"
    by blast
  then show ?thesis
  proof cases
    case push
    from pushCallingEnv_Inr(4)[OF this] assms(1) show ?thesis by simp
  next
    case pop
    note f = popCallingEnv_fields[OF pop]
    show ?thesis by (rule msg_sized_cong[OF assms(1) f(1)]) (use f(2) in simp)
  next
    case alloc
    from exAlloc_msg_sized[OF alloc assms(1)] show ?thesis .
  next
    case throw
    from exThrow_msg_sized[OF throw assms(1)] show ?thesis .
  next
    case repeat
    from exRepeat_Inr(1)[OF repeat] obtain h where h: "h < length ?xs"
      and s': "exceptionList s' = ?xs[h := (?xs ! h)\<lparr>ex_thrown := True, ex_thread := t\<rparr>]"
      by auto
    show ?thesis
      by (rule msg_sized_cong[OF assms(1)]) (use h in \<open>auto simp: s' nth_list_update\<close>)
  next
    case free
    from exFree_Inr[OF free] obtain hs
      where s': "exceptionList s' = release (set hs) ?xs" by auto
    show ?thesis
      by (rule msg_sized_cong[OF assms(1)]) (simp_all add: s' release_fields)
  qed
qed

lemma msg_sized_reachable: "reachable s \<Longrightarrow> msg_sized (exceptionList s)"
proof (induction rule: reachable_induct)
  case (init vars)
  show ?case
    by (simp add: msg_sized_def exInit_def zeroExceptionEntry_def zeroException_def)
next
  case (step s c s')
  from msg_sized_step[OF step.IH step.hyps(2)] show ?case .
qed

section \<open>Long messages\<close>

lemma c_string_terminated: "c_string (xs @ [NUL]) = c_string xs"
  by (induction xs) (simp_all add: c_string_def)

lemma c_string_length: "length (c_string xs) \<le> length xs"
  by (simp add: c_string_def length_takeWhile_le)

lemma c_string_full: "length (c_string xs) = length xs \<longleftrightarrow> NUL \<notin> set xs"
  by (induction xs) (auto simp: c_string_def)

lemma c_string_id: "NUL \<notin> set xs \<Longrightarrow> c_string xs = xs"
  by (induction xs) (auto simp: c_string_def)

lemma c_string_prefix:
  assumes "n \<le> length (c_string xs)"
  shows "NUL \<notin> set (take n xs)"
proof -
  have "xs = c_string xs @ dropWhile (\<lambda>ch. ch \<noteq> NUL) xs" by (simp add: c_string_def)
  then have "take n xs = take n (c_string xs @ dropWhile (\<lambda>ch. ch \<noteq> NUL) xs)" by simp
  also have "\<dots> = take n (c_string xs)" using assms by simp
  finally have "set (take n xs) \<subseteq> set (c_string xs)" by (simp add: set_take_subset)
  moreover have "NUL \<notin> set (c_string xs)" by (auto simp: c_string_def dest: set_takeWhileD)
  ultimately show ?thesis by blast
qed

lemma fill_exception_msg_sized:
  assumes "msg_sized xs"
  shows "msg_sized (fill_exception xs i c cs out)"
  unfolding msg_sized_def
proof (intro allI impI)
  fix j assume j: "j < length (fill_exception xs i c cs out)"
  then have jl: "j < length xs" by (simp add: fill_exception_def)
  with assms have m: "length (msg (exception (xs ! j))) = MAX_MSG_LEN" by (simp add: msg_sized_def)
  show "length (msg (exception (fill_exception xs i c cs out ! j))) = MAX_MSG_LEN"
  proof (cases "j = i")
    case True
    with jl m vsnprintf_length[of "msg (exception (xs ! i))" out] show ?thesis
      by (simp add: fill_exception_def)
  next
    case False
    with jl m show ?thesis by (simp add: fill_exception_def)
  qed
qed

lemma flags_msg_sized:
  assumes "msg_sized xs" and "exception r = exception (xs ! i)"
  shows "msg_sized (xs[i := r])"
proof (rule msg_sized_cong[OF assms(1)])
  show "length (xs[i := r]) = length xs" by simp
  show "\<forall>j < length xs. exception (xs[i := r] ! j) = exception (xs ! j)"
  proof (intro allI impI)
    fix j assume "j < length xs"
    with assms(2) show "exception (xs[i := r] ! j) = exception (xs ! j)"
      by (cases "j = i") simp_all
  qed
qed

lemma mark_cause_msg_sized:
  assumes "msg_sized xs"
  shows "msg_sized (mark_cause xs cs)"
proof (cases "getExceptionEntry xs cs")
  case None
  with assms show ?thesis by (simp add: mark_cause_def)
next
  case (Some r)
  from flags_msg_sized[OF assms, of "(xs ! r)\<lparr>ex_cause := True\<rparr>" r] Some
  show ?thesis by (simp add: mark_cause_def)
qed

lemma exAlloc_stopped_msg_sized:
  assumes "msg_sized (exceptionList s)" and "exAlloc s c cs out = Inl (err, s')"
  shows "msg_sized (exceptionList s')"
proof (cases "check_cause (exceptionList s) cs")
  case (Some e)
  with assms show ?thesis by (simp add: exAlloc_def)
next
  case None
  with assms(2) have "s' = s\<lparr>exceptionList := mark_cause (exceptionList s) cs\<rparr>"
    by (auto simp: exAlloc_def allocExceptionEntry_def split: option.splits)
  with assms(1) show ?thesis by (simp add: mark_cause_msg_sized)
qed

lemma exThrow_stopped_msg_sized:
  assumes "msg_sized (exceptionList s)" and "exThrow s t c cs out = Inl (err, s')"
  shows "msg_sized (exceptionList s')"
proof (cases "check_cause (exceptionList s) cs")
  case (Some e)
  with assms show ?thesis by (simp add: exThrow_def)
next
  case None
  show ?thesis
  proof (cases "allocExceptionEntry_scan (exceptionList s) 0")
    case n: None
    with None assms show ?thesis by (simp add: exThrow_def allocExceptionEntry_def)
  next
    case (Some h)
    let ?xs = "(exceptionList s)[h := (exceptionList s ! h)\<lparr>ex_cause := False, ex_used := True\<rparr>]"
    let ?xs1 = "?xs[h := (?xs ! h)\<lparr>ex_thrown := True, ex_thread := t\<rparr>]"
    from None Some assms(2)
    have s': "s' = s\<lparr>exceptionList := fill_exception (mark_cause ?xs1 cs) h c cs out\<rparr>"
      by (auto simp: exThrow_def allocExceptionEntry_def Let_def split: option.splits)
    from allocExceptionEntry_scan_Some[OF Some] have h: "h < length (exceptionList s)" by simp
    from assms(1) have "msg_sized ?xs" by (rule flags_msg_sized) simp
    then have "msg_sized ?xs1" by (rule flags_msg_sized) simp
    then have "msg_sized (fill_exception (mark_cause ?xs1 cs) h c cs out)"
      by (intro fill_exception_msg_sized mark_cause_msg_sized)
    with s' show ?thesis by simp
  qed
qed

lemma exAlloc_returns:
  assumes "check_cause (exceptionList s) cs = None"
    and "allocExceptionEntry_scan (exceptionList s) 0 = Some h"
  shows "\<exists>s'. exAlloc s c cs out = Inr (h, s')"
  using assms by (simp add: exAlloc_def allocExceptionEntry_def)

lemma exThrow_jumps:
  assumes "check_cause (exceptionList s) cs = None"
    and "allocExceptionEntry_scan (exceptionList s) 0 = Some h"
    and "getLastEnvEntry (envList s) t = Some l"
  shows "\<exists>s'. exThrow s t c cs out = Inr (l, s')"
  using assms by (simp add: exThrow_def allocExceptionEntry_def Let_def)

lemma demo_alloc_nul: "exAlloc demo_init exOther None demo_nul = Inr (0, demo_nul_stored)"
  by (simp add: exAlloc_def check_cause_def allocExceptionEntry_def fill_exception_def
      mark_cause_def getExceptionEntry_def demo_defs demo_nul_def demo_nul_stored_def
      vsnprintf_def vsnprintf_stored_def MAX_MSG_LEN_def)

text \<open>
  Claim C7, as stated: for every template and arguments whose expansion has
  \<^verbatim>\<open>MAX_MSG_LEN\<close> characters or more, the string stored has exactly \<^verbatim>\<open>MAX_MSG_LEN - 1\<close>
  characters. It fails for an expansion with a null character among its first
  \<^verbatim>\<open>MAX_MSG_LEN - 1\<close> characters: the 3000 characters of \<open>demo_nul\<close> are stored as a
  string of one character.
\<close>

theorem message_ends_at_null:
  "MAX_MSG_LEN \<le> length demo_nul
   \<and> exAlloc demo_init exOther None demo_nul = Inr (0, demo_nul_stored)
   \<and> c_string (msg (exception (exceptionList demo_nul_stored ! 0))) = ''a''
   \<and> length (c_string (msg (exception (exceptionList demo_nul_stored ! 0)))) \<noteq> MAX_MSG_LEN - 1"
proof -
  have "c_string (msg (exception (exceptionList demo_nul_stored ! 0))) = ''a''"
    by (simp add: demo_nul_stored_def c_string_def demo_defs NUL_def)
  moreover have "MAX_MSG_LEN \<le> length demo_nul" by (simp add: demo_nul_def MAX_MSG_LEN_def)
  ultimately show ?thesis using demo_alloc_nul by (simp add: MAX_MSG_LEN_def)
qed

text \<open>
  Claim C7, amended: in a reachable state let the expansion \<open>out\<close> of the template and
  arguments have \<^verbatim>\<open>MAX_MSG_LEN\<close> characters or more. Whenever \<^verbatim>\<open>exAlloc\<close> returns or
  \<^verbatim>\<open>exThrow\<close> jumps, the message buffer of the new record holds the first
  \<^verbatim>\<open>MAX_MSG_LEN - 1\<close> characters of \<open>out\<close> followed by the null character; they do return
  and jump when the cause passes the assertions, the pool has a free record and, for
  \<^verbatim>\<open>exThrow\<close>, the thread has an open block. What is stored fills the
  \<^verbatim>\<open>MAX_MSG_LEN\<close> characters of the buffer exactly, and every buffer of the pool keeps its
  size, also when the call stops the program: nothing is written beyond a buffer. The
  string stored ends at the first null character: it has \<^verbatim>\<open>MAX_MSG_LEN - 1\<close> characters,
  the first of \<open>out\<close>, exactly when there is no null character among them, and fewer
  otherwise. In particular it has \<^verbatim>\<open>MAX_MSG_LEN - 1\<close> characters when the string that
  \<open>out\<close> holds, up to its first null character, has \<^verbatim>\<open>MAX_MSG_LEN\<close> characters or more.
\<close>

theorem message_truncated:
  assumes "reachable s" and "MAX_MSG_LEN \<le> length out"
  shows "(\<forall>h s'. exAlloc s c cs out = Inr (h, s') \<longrightarrow>
            msg (exception (exceptionList s' ! h)) = take (MAX_MSG_LEN - 1) out @ [NUL] \<and>
            msg_sized (exceptionList s'))
       \<and> (\<forall>l s'. exThrow s t c cs out = Inr (l, s') \<longrightarrow>
            (\<exists>h. allocExceptionEntry_scan (exceptionList s) 0 = Some h \<and>
               msg (exception (exceptionList s' ! h)) = take (MAX_MSG_LEN - 1) out @ [NUL]) \<and>
            msg_sized (exceptionList s'))
       \<and> (\<forall>h. check_cause (exceptionList s) cs = None \<and>
              allocExceptionEntry_scan (exceptionList s) 0 = Some h \<longrightarrow>
            (\<exists>s'. exAlloc s c cs out = Inr (h, s') \<and>
               msg (exception (exceptionList s' ! h)) = take (MAX_MSG_LEN - 1) out @ [NUL]))
       \<and> (\<forall>h l. check_cause (exceptionList s) cs = None \<and>
              allocExceptionEntry_scan (exceptionList s) 0 = Some h \<and>
              getLastEnvEntry (envList s) t = Some l \<longrightarrow>
            (\<exists>s'. exThrow s t c cs out = Inr (l, s') \<and>
               msg (exception (exceptionList s' ! h)) = take (MAX_MSG_LEN - 1) out @ [NUL]))
       \<and> (\<forall>err s'. exAlloc s c cs out = Inl (err, s') \<longrightarrow> msg_sized (exceptionList s'))
       \<and> (\<forall>err s'. exThrow s t c cs out = Inl (err, s') \<longrightarrow> msg_sized (exceptionList s'))
       \<and> length (take (MAX_MSG_LEN - 1) out @ [NUL]) = MAX_MSG_LEN
       \<and> c_string (take (MAX_MSG_LEN - 1) out @ [NUL]) = c_string (take (MAX_MSG_LEN - 1) out)
       \<and> length (c_string (take (MAX_MSG_LEN - 1) out @ [NUL])) \<le> MAX_MSG_LEN - 1
       \<and> (length (c_string (take (MAX_MSG_LEN - 1) out @ [NUL])) = MAX_MSG_LEN - 1
            \<longleftrightarrow> NUL \<notin> set (take (MAX_MSG_LEN - 1) out))
       \<and> (NUL \<notin> set (take (MAX_MSG_LEN - 1) out) \<longrightarrow>
            c_string (take (MAX_MSG_LEN - 1) out @ [NUL]) = take (MAX_MSG_LEN - 1) out)
       \<and> (MAX_MSG_LEN \<le> length (c_string out) \<longrightarrow>
            c_string (take (MAX_MSG_LEN - 1) out @ [NUL]) = take (MAX_MSG_LEN - 1) out \<and>
            length (c_string (take (MAX_MSG_LEN - 1) out @ [NUL])) = MAX_MSG_LEN - 1)"
proof -
  let ?xs = "exceptionList s"
  let ?m = "take (MAX_MSG_LEN - 1) out @ [NUL]"
  from msg_sized_reachable[OF assms(1)] have ms: "msg_sized ?xs" .
  from assms(2) have lt: "length (take (MAX_MSG_LEN - 1) out) = MAX_MSG_LEN - 1" by simp
  have a: "msg (exception (exceptionList s' ! h)) = ?m \<and> msg_sized (exceptionList s')"
    if r: "exAlloc s c cs out = Inr (h, s')" for h s'
  proof -
    note h = exAlloc_Inr(1)[OF r]
    with ms have "length (msg (exception (?xs ! h))) = MAX_MSG_LEN" by (simp add: msg_sized_def)
    from vsnprintf_long[OF assms(2) this] exAlloc_fields(7)[OF r h]
    have "msg (exception (exceptionList s' ! h)) = ?m" by simp
    with exAlloc_msg_sized[OF r ms] show ?thesis by simp
  qed
  have b: "(\<exists>h. allocExceptionEntry_scan ?xs 0 = Some h \<and>
               msg (exception (exceptionList s' ! h)) = ?m) \<and> msg_sized (exceptionList s')"
    if r: "exThrow s t c cs out = Inr (l, s')" for l s'
  proof -
    from exThrow_Inr(1)[OF r] obtain h
      where h: "allocExceptionEntry_scan ?xs 0 = Some h" "h < length ?xs" by blast
    with ms have "length (msg (exception (?xs ! h))) = MAX_MSG_LEN" by (simp add: msg_sized_def)
    from vsnprintf_long[OF assms(2) this] exThrow_fields(7)[OF r h(1) h(2)]
    have "msg (exception (exceptionList s' ! h)) = ?m" by simp
    with h(1) exThrow_msg_sized[OF r ms] show ?thesis by simp
  qed
  have 1: "\<forall>h s'. exAlloc s c cs out = Inr (h, s') \<longrightarrow>
            msg (exception (exceptionList s' ! h)) = ?m \<and> msg_sized (exceptionList s')"
    using a by blast
  have 2: "\<forall>l s'. exThrow s t c cs out = Inr (l, s') \<longrightarrow>
            (\<exists>h. allocExceptionEntry_scan ?xs 0 = Some h \<and>
               msg (exception (exceptionList s' ! h)) = ?m) \<and> msg_sized (exceptionList s')"
    using b by blast
  have 3: "\<forall>h. check_cause ?xs cs = None \<and> allocExceptionEntry_scan ?xs 0 = Some h \<longrightarrow>
            (\<exists>s'. exAlloc s c cs out = Inr (h, s') \<and> msg (exception (exceptionList s' ! h)) = ?m)"
  proof (intro allI impI)
    fix h assume p: "check_cause ?xs cs = None \<and> allocExceptionEntry_scan ?xs 0 = Some h"
    then obtain s' where "exAlloc s c cs out = Inr (h, s')"
      using exAlloc_returns[of s cs h c out] by blast
    with a show "\<exists>s'. exAlloc s c cs out = Inr (h, s') \<and> msg (exception (exceptionList s' ! h)) = ?m"
      by blast
  qed
  have 4: "\<forall>h l. check_cause ?xs cs = None \<and> allocExceptionEntry_scan ?xs 0 = Some h \<and>
              getLastEnvEntry (envList s) t = Some l \<longrightarrow>
            (\<exists>s'. exThrow s t c cs out = Inr (l, s') \<and> msg (exception (exceptionList s' ! h)) = ?m)"
  proof (intro allI impI)
    fix h l
    assume p: "check_cause ?xs cs = None \<and> allocExceptionEntry_scan ?xs 0 = Some h \<and>
              getLastEnvEntry (envList s) t = Some l"
    then obtain s' where r: "exThrow s t c cs out = Inr (l, s')"
      using exThrow_jumps[of s cs h t l c out] by blast
    from b[OF r] p have "msg (exception (exceptionList s' ! h)) = ?m" by auto
    with r show "\<exists>s'. exThrow s t c cs out = Inr (l, s') \<and> msg (exception (exceptionList s' ! h)) = ?m"
      by blast
  qed
  have 5: "\<forall>err s'. exAlloc s c cs out = Inl (err, s') \<longrightarrow> msg_sized (exceptionList s')"
    using exAlloc_stopped_msg_sized[OF ms] by blast
  have 6: "\<forall>err s'. exThrow s t c cs out = Inl (err, s') \<longrightarrow> msg_sized (exceptionList s')"
    using exThrow_stopped_msg_sized[OF ms] by blast
  have 7: "length ?m = MAX_MSG_LEN" using assms(2) by (simp add: MAX_MSG_LEN_def)
  have 8: "c_string ?m = c_string (take (MAX_MSG_LEN - 1) out)" by (rule c_string_terminated)
  have 9: "length (c_string ?m) \<le> MAX_MSG_LEN - 1"
    unfolding 8 using c_string_length[of "take (MAX_MSG_LEN - 1) out"] lt by simp
  have 10: "length (c_string ?m) = MAX_MSG_LEN - 1 \<longleftrightarrow> NUL \<notin> set (take (MAX_MSG_LEN - 1) out)"
    unfolding 8 using c_string_full[of "take (MAX_MSG_LEN - 1) out"] lt by simp
  have 11: "NUL \<notin> set (take (MAX_MSG_LEN - 1) out) \<longrightarrow> c_string ?m = take (MAX_MSG_LEN - 1) out"
    unfolding 8 by (simp add: c_string_id)
  have 12: "MAX_MSG_LEN \<le> length (c_string out) \<longrightarrow>
            c_string ?m = take (MAX_MSG_LEN - 1) out \<and> length (c_string ?m) = MAX_MSG_LEN - 1"
  proof
    assume "MAX_MSG_LEN \<le> length (c_string out)"
    then have "MAX_MSG_LEN - 1 \<le> length (c_string out)" by simp
    from c_string_prefix[OF this] 10 11
    show "c_string ?m = take (MAX_MSG_LEN - 1) out \<and> length (c_string ?m) = MAX_MSG_LEN - 1"
      by simp
  qed
  from 1 2 3 4 5 6 7 8 9 10 11 12 show ?thesis by (intro conjI)
qed

lemma demo_reentered_reachable: "reachable demo_reentered"
  using reachable_run[OF demo_caught_reachable demo_reentered_run] .

lemma demo_reentered_last: "getLastEnvEntry (envList demo_reentered) 1 = Some 2"
  by (simp add: getLastEnvEntry_def demo_defs demo_other_entered_def demo_reentered_def)

theorem message_truncated_witness:
  "reachable demo_reentered \<and> MAX_MSG_LEN \<le> length demo_long
   \<and> check_cause (exceptionList demo_reentered) (Some 0) = None
   \<and> allocExceptionEntry_scan (exceptionList demo_reentered) 0 = Some 1
   \<and> getLastEnvEntry (envList demo_reentered) 1 = Some 2
   \<and> (\<exists>s'. exThrow demo_reentered 1 exOther (Some 0) demo_long = Inr (2, s') \<and>
        msg (exception (exceptionList s' ! 1)) = take (MAX_MSG_LEN - 1) demo_long @ [NUL])
   \<and> (\<exists>s'. exAlloc demo_reentered exOther (Some 0) demo_long = Inr (1, s') \<and>
        msg (exception (exceptionList s' ! 1)) = take (MAX_MSG_LEN - 1) demo_long @ [NUL])
   \<and> take (MAX_MSG_LEN - 1) demo_long = replicate 2047 (CHR ''a'')
   \<and> NUL \<notin> set (take (MAX_MSG_LEN - 1) demo_long)
   \<and> length (c_string (take (MAX_MSG_LEN - 1) demo_long @ [NUL])) = MAX_MSG_LEN - 1"
proof -
  have l: "MAX_MSG_LEN \<le> length demo_long" by (simp add: demo_long_def MAX_MSG_LEN_def)
  have t: "take (MAX_MSG_LEN - 1) demo_long = replicate 2047 (CHR ''a'')"
    by (simp add: demo_long_def MAX_MSG_LEN_def)
  have n: "NUL \<notin> set (take (MAX_MSG_LEN - 1) demo_long)"
    unfolding t by (simp add: NUL_def)
  note m = message_truncated[OF demo_reentered_reachable l, of exOther "Some 0" 1]
  from m demo_reentered_pool demo_reentered_last
  have 1: "\<exists>s'. exThrow demo_reentered 1 exOther (Some 0) demo_long = Inr (2, s') \<and>
        msg (exception (exceptionList s' ! 1)) = take (MAX_MSG_LEN - 1) demo_long @ [NUL]"
    by blast
  from m demo_reentered_pool
  have 2: "\<exists>s'. exAlloc demo_reentered exOther (Some 0) demo_long = Inr (1, s') \<and>
        msg (exception (exceptionList s' ! 1)) = take (MAX_MSG_LEN - 1) demo_long @ [NUL]"
    by blast
  from m n have 3: "length (c_string (take (MAX_MSG_LEN - 1) demo_long @ [NUL])) = MAX_MSG_LEN - 1"
    by blast
  from demo_reentered_reachable l demo_reentered_pool demo_reentered_last 1 2 t n 3
  show ?thesis by (intro conjI)
qed

section \<open>The check exRepeat does not make\<close>

text \<open>
  Where the stale thrown flag comes from. A run in which \<^verbatim>\<open>exRepeat\<close> is never applied
  to a record marked as a cause never frees a record that is being thrown: a thrown
  record of such a run is not a cause, so it is on no chain below the root, and
  \<^verbatim>\<open>exFree\<close> checks the root itself. In the states such a run reaches, a record not in
  use is not thrown.
\<close>

lemma thrown_not_cause_step:
  assumes "thrown_not_cause (exceptionList s)" and "step s c = Some s'"
    and "\<not> repeats_cause s c"
  shows "thrown_not_cause (exceptionList s')"
proof -
  let ?xs = "exceptionList s"
  from step_cases[OF assms(2)]
  consider (push) t u where "pushCallingEnv s t = Inr (u, s')"
    | (pop) t e where "popCallingEnv s t e = Inr s'"
    | (alloc) k cs out h where "exAlloc s k cs out = Inr (h, s')"
    | (throw) t k cs out l where "exThrow s t k cs out = Inr (l, s')"
    | (repeat) t e l where "c = Repeat t e" "exRepeat s t e = Inr (l, s')"
    | (free) e where "exFree s e = Some (Inr s')"
    by blast
  then show ?thesis
  proof cases
    case push
    from pushCallingEnv_Inr(4)[OF this] assms(1) show ?thesis by simp
  next
    case pop
    note f = popCallingEnv_fields[OF pop]
    from assms(1) f show ?thesis by (simp add: thrown_not_cause_def)
  next
    case alloc
    note a = exAlloc_Inr[OF alloc]
    show ?thesis unfolding thrown_not_cause_def
    proof (intro allI impI)
      fix j assume "j < length (exceptionList s')"
        and ut: "ex_used (exceptionList s' ! j) \<and> ex_thrown (exceptionList s' ! j)"
      with a(7) have j: "j < length ?xs" by simp
      note f = exAlloc_fields[OF alloc j]
      show "\<not> ex_cause (exceptionList s' ! j)"
      proof
        assume "ex_cause (exceptionList s' ! j)"
        with f(4) have jh: "j \<noteq> h" and c: "ex_cause (?xs ! j) \<or> cs = Some j" by simp_all
        from ut f(1,2) jh have u: "ex_used (?xs ! j)" "ex_thrown (?xs ! j)" by simp_all
        from c show False
        proof
          assume "ex_cause (?xs ! j)"
          with assms(1) j u show False by (simp add: thrown_not_cause_def)
        next
          assume "cs = Some j"
          with a(4) u(2) show False by (simp add: check_cause_None)
        qed
      qed
    qed
  next
    case throw
    from exThrow_Inr(1)[OF throw] obtain h
      where h: "allocExceptionEntry_scan ?xs 0 = Some h" by blast
    show ?thesis unfolding thrown_not_cause_def
    proof (intro allI impI)
      fix j assume "j < length (exceptionList s')"
        and ut: "ex_used (exceptionList s' ! j) \<and> ex_thrown (exceptionList s' ! j)"
      with exThrow_Inr(6)[OF throw] have j: "j < length ?xs" by simp
      note f = exThrow_fields[OF throw h j]
      show "\<not> ex_cause (exceptionList s' ! j)"
      proof
        assume "ex_cause (exceptionList s' ! j)"
        with f(4) have jh: "j \<noteq> h" and c: "ex_cause (?xs ! j) \<or> cs = Some j" by simp_all
        from ut f(1,2) jh have u: "ex_used (?xs ! j)" "ex_thrown (?xs ! j)" by simp_all
        from c show False
        proof
          assume "ex_cause (?xs ! j)"
          with assms(1) j u show False by (simp add: thrown_not_cause_def)
        next
          assume "cs = Some j"
          with exThrow_Inr(2)[OF throw] u(2) show False by (simp add: check_cause_None)
        qed
      qed
    qed
  next
    case repeat
    from exRepeat_Inr(1)[OF repeat(2)] obtain h where h: "e = Some h" "h < length ?xs"
      and s': "exceptionList s' = ?xs[h := (?xs ! h)\<lparr>ex_thrown := True, ex_thread := t\<rparr>]"
      by auto
    from assms(3) repeat(1) h have "\<not> ex_cause (?xs ! h)" by (simp add: getExceptionEntry_eq)
    with assms(1) h(2) show ?thesis
      by (auto simp: thrown_not_cause_def s' nth_list_update)
  next
    case free
    from exFree_Inr[OF free] obtain hs
      where s': "exceptionList s' = release (set hs) ?xs" by auto
    from assms(1) show ?thesis by (simp add: thrown_not_cause_def s' release_fields)
  qed
qed

lemma careful_not_frees_thrown:
  assumes "cause_inv (exceptionList s)" and "thrown_not_cause (exceptionList s)"
  shows "\<not> frees_thrown s c"
proof (cases c)
  case (Free e)
  let ?xs = "exceptionList s"
  show ?thesis
  proof
    assume "frees_thrown s c"
    with Free obtain s' i where f: "exFree s e = Some (Inr s')"
      and i: "i < length ?xs" "ex_used (?xs ! i)" "ex_thrown (?xs ! i)"
        "\<not> ex_used (exceptionList s' ! i)"
      by (auto split: option.splits sum.splits)
    from exFree_Inr[OF f] obtain h hs where h: "e = Some h" "ex_used (?xs ! h)"
      "\<not> ex_thrown (?xs ! h)" "chain ?xs e hs" "exceptionList s' = release (set hs) ?xs"
      by auto
    from i h(5) have mem: "i \<in> set hs" by (simp add: release_fields)
    from chain_pred[OF h(4) mem] h(1,3) i(3)
    obtain p where p: "p \<in> set hs" "cause (exception (?xs ! p)) = Some i" by auto
    from chain_used[OF h(4) _ _ p(1)] cause_invD(1)[OF assms(1)] h(1,2)
    have "ex_used (?xs ! p)" by blast
    with p chain_valid[OF h(4) p(1)] have "points_to ?xs p i" by (simp add: points_to_def)
    from cause_invD(1)[OF assms(1) this] have "ex_cause (?xs ! i)" by simp
    with assms(2) i show False by (simp add: thrown_not_cause_def)
  qed
qed simp_all

lemma careful_disciplined_from:
  "cause_inv (exceptionList s0) \<Longrightarrow> thrown_not_cause (exceptionList s0) \<Longrightarrow>
   run s0 cs = Some s \<Longrightarrow> careful s0 cs \<Longrightarrow> disciplined s0 cs"
proof (induction cs arbitrary: s0)
  case Nil
  then show ?case by simp
next
  case (Cons c cs)
  from Cons.prems(3) obtain s1 where s1: "step s0 c = Some s1" "run s1 cs = Some s"
    by (auto split: option.splits)
  with Cons.prems(4) have c: "\<not> repeats_cause s0 c" "careful s1 cs" by simp_all
  from careful_not_frees_thrown[OF Cons.prems(1,2)] have "\<not> frees_thrown s0 c" .
  moreover from Cons.IH[OF cause_inv_step[OF Cons.prems(1) s1(1)]
      thrown_not_cause_step[OF Cons.prems(2) s1(1) c(1)] s1(2) c(2)]
  have "disciplined s1 cs" .
  ultimately show ?case using s1(1) by simp
qed

lemma careful_disciplined:
  assumes "run (exInit vars) cs = Some s" and "careful (exInit vars) cs"
  shows "disciplined (exInit vars) cs"
proof -
  have "cause_inv (exceptionList (exInit vars))" by (simp add: exInit_def cause_inv_init)
  moreover have "thrown_not_cause (exceptionList (exInit vars))"
    by (simp add: thrown_not_cause_def exInit_def zeroExceptionEntry_def)
  ultimately show ?thesis using assms by (rule careful_disciplined_from)
qed

lemma careful_unused_not_thrown:
  assumes "run (exInit vars) cs = Some s" and "careful (exInit vars) cs"
  shows "\<forall>i < length (exceptionList s).
           \<not> ex_used (exceptionList s ! i) \<longrightarrow> \<not> ex_thrown (exceptionList s ! i)"
proof -
  from thrown_used_run[OF thrown_used_init assms(1) careful_disciplined[OF assms]]
  show ?thesis by (auto simp: thrown_used_def)
qed

end
